theory Spec2Isabelle
  imports Main "HOL-Library.AList"
begin

section \<open>Texts and characters\<close>

text \<open>
  The hook of \<^verbatim>\<open>src/hooks/pre_code_generation.py\<close> works on Python \<^verbatim>\<open>str\<close> values.
  A text is modelled as a \<^typ>\<open>string\<close>, one \<^typ>\<open>char\<close> per code point, so the
  model covers the texts whose code points are below 256. The two character classes the
  regular expressions and \<^verbatim>\<open>str.strip\<close> use are written out for these code points as
  Python's \<^verbatim>\<open>re\<close> module (Unicode mode, the default for \<^verbatim>\<open>str\<close> patterns) decides them.
\<close>

definition word_char :: "char \<Rightarrow> bool" where
  \<comment> \<open>the class \<^verbatim>\<open>\w\<close>: alphanumeric code points and the underscore\<close>
  "word_char c =
     (let n = (of_char c :: nat) in
        (48 \<le> n \<and> n \<le> 57) \<or> (65 \<le> n \<and> n \<le> 90) \<or> n = 95 \<or> (97 \<le> n \<and> n \<le> 122) \<or>
        n = 170 \<or> n = 178 \<or> n = 179 \<or> n = 181 \<or> n = 185 \<or> n = 186 \<or>
        n = 188 \<or> n = 189 \<or> n = 190 \<or>
        (192 \<le> n \<and> n \<le> 214) \<or> (216 \<le> n \<and> n \<le> 246) \<or> 248 \<le> n)"

definition space_char :: "char \<Rightarrow> bool" where
  \<comment> \<open>the class \<^verbatim>\<open>\s\<close>, which is also what \<^verbatim>\<open>str.strip()\<close> removes\<close>
  "space_char c =
     (let n = (of_char c :: nat) in
        (9 \<le> n \<and> n \<le> 13) \<or> (28 \<le> n \<and> n \<le> 32) \<or> n = 133 \<or> n = 160)"

definition squote :: char where
  "squote = CHR 0x27"

definition dquote :: char where
  "dquote = CHR 0x22"

definition newline :: char where
  "newline = CHR 0x0A"

definition quote_char :: "char \<Rightarrow> bool" where
  \<comment> \<open>the class \<^verbatim>\<open>['\"]\<close>\<close>
  "quote_char c = (c = squote \<or> c = dquote)"

definition not_quote :: "char \<Rightarrow> bool" where
  \<comment> \<open>the class \<^verbatim>\<open>[^'\"]\<close>\<close>
  "not_quote c = (\<not> quote_char c)"

definition not_rbrace :: "char \<Rightarrow> bool" where
  \<comment> \<open>the class \<^verbatim>\<open>[^}]\<close>; a negated class matches line breaks as well\<close>
  "not_rbrace c = (c \<noteq> CHR ''}'')"

subsection \<open>String operations of Python\<close>

definition startswith :: "string \<Rightarrow> string \<Rightarrow> bool" where
  "startswith s p = (take (length p) s = p)"

definition endswith :: "string \<Rightarrow> string \<Rightarrow> bool" where
  "endswith s suf = (length suf \<le> length s \<and> drop (length s - length suf) s = suf)"

definition endswith_any :: "string \<Rightarrow> string list \<Rightarrow> bool" where
  \<comment> \<open>\<^verbatim>\<open>s.endswith(tuple)\<close>: some member of the tuple is a suffix\<close>
  "endswith_any s sufs = list_ex (endswith s) sufs"

fun contains :: "string \<Rightarrow> string \<Rightarrow> bool" where
  \<comment> \<open>\<^verbatim>\<open>sub in s\<close>\<close>
  "contains sub [] = (sub = [])"
| "contains sub (c # cs) = (startswith (c # cs) sub \<or> contains sub cs)"

definition strip :: "string \<Rightarrow> string" where
  "strip s = rev (dropWhile space_char (rev (dropWhile space_char s)))"

fun split_on :: "char \<Rightarrow> string \<Rightarrow> string list" where
  \<comment> \<open>\<^verbatim>\<open>s.split(sep)\<close> for a one-character separator: empty pieces are kept\<close>
  "split_on sep [] = [[]]"
| "split_on sep (c # cs) =
     (if c = sep then [] # split_on sep cs
      else (case split_on sep cs of p # ps \<Rightarrow> (c # p) # ps | [] \<Rightarrow> [[c]]))"

fun join :: "string \<Rightarrow> string list \<Rightarrow> string" where
  \<comment> \<open>\<^verbatim>\<open>sep.join(xs)\<close>\<close>
  "join sep [] = []"
| "join sep [x] = x"
| "join sep (x # y # ys) = x @ sep @ join sep (y # ys)"

section \<open>Regular expression matching\<close>

text \<open>
  Python's \<^verbatim>\<open>re\<close> is a backtracking matcher. A pattern is modelled as a function from the
  text at the current position to the list of its possible matches there, in the order
  the matcher tries them: a greedy repetition offers its longest match first and gives
  characters back one at a time. The first element of the list is the match found.
\<close>

definition lit :: "string \<Rightarrow> string \<Rightarrow> string list" where
  \<comment> \<open>a literal: the rest of the text after it, when the text starts with it\<close>
  "lit p s = (if startswith s p then [drop (length p) s] else [])"

definition one_of :: "(char \<Rightarrow> bool) \<Rightarrow> string \<Rightarrow> string list" where
  \<comment> \<open>one character of a class\<close>
  "one_of P s = (case s of [] \<Rightarrow> [] | c # cs \<Rightarrow> if P c then [cs] else [])"

fun many1 :: "(char \<Rightarrow> bool) \<Rightarrow> string \<Rightarrow> (string \<times> string) list" where
  \<comment> \<open>\<^verbatim>\<open>C+\<close>, greedy: the matched text and the rest, longest match first\<close>
  "many1 P [] = []"
| "many1 P (c # cs) =
     (if P c then map (\<lambda>(m, r). (c # m, r)) (many1 P cs) @ [([c], cs)] else [])"

definition many0 :: "(char \<Rightarrow> bool) \<Rightarrow> string \<Rightarrow> (string \<times> string) list" where
  \<comment> \<open>\<^verbatim>\<open>C*\<close>, greedy\<close>
  "many0 P s = many1 P s @ [([], s)]"

definition first_match :: "(string \<Rightarrow> ('g \<times> string) list) \<Rightarrow> string \<Rightarrow> ('g \<times> string) option" where
  "first_match rx s = (case rx s of [] \<Rightarrow> None | x # _ \<Rightarrow> Some x)"

function findall :: "(string \<Rightarrow> ('g \<times> string) list) \<Rightarrow> string \<Rightarrow> 'g list" where
  \<comment> \<open>\<^verbatim>\<open>re.findall\<close>: scan from the left; after a match go on behind it, otherwise one
      character further. A match that consumed nothing also moves one character on.\<close>
  "findall rx s =
     (case first_match rx s of
        Some (g, rest) \<Rightarrow>
          (if length rest < length s then g # findall rx rest
           else (case s of [] \<Rightarrow> [g] | _ # t \<Rightarrow> g # findall rx t))
      | None \<Rightarrow> (case s of [] \<Rightarrow> [] | _ # t \<Rightarrow> findall rx t))"
  by pat_completeness auto
termination
  by (relation "measure (\<lambda>(rx, s). length s)") auto

declare findall.simps [simp del]

definition service_rx :: "string \<Rightarrow> ((string \<times> string) \<times> string) list" where
  \<comment> \<open>\<^verbatim>\<open>this\.(\w+Service)\.(\w+)\(\<close>\<close>
  "service_rx s =
     [((w @ ''Service'', m), r6).
        r1 \<leftarrow> lit ''this.'' s,
        (w, r2) \<leftarrow> many1 word_char r1,
        r3 \<leftarrow> lit ''Service'' r2,
        r4 \<leftarrow> lit ''.'' r3,
        (m, r5) \<leftarrow> many1 word_char r4,
        r6 \<leftarrow> lit ''('' r5]"

definition import_rx :: "string \<Rightarrow> ((string \<times> string) \<times> string) list" where
  \<comment> \<open>\<^verbatim>\<open>import\s*{([^}]+)}\s*from\s*['\"]([^'\"]+)['\"]\<close>\<close>
  "import_rx s =
     [((imported, path), r11).
        r1 \<leftarrow> lit ''import'' s,
        (sp1, r2) \<leftarrow> many0 space_char r1,
        r3 \<leftarrow> lit ''{'' r2,
        (imported, r4) \<leftarrow> many1 not_rbrace r3,
        r5 \<leftarrow> lit ''}'' r4,
        (sp2, r6) \<leftarrow> many0 space_char r5,
        r7 \<leftarrow> lit ''from'' r6,
        (sp3, r8) \<leftarrow> many0 space_char r7,
        r9 \<leftarrow> one_of quote_char r8,
        (path, r10) \<leftarrow> many1 not_quote r9,
        r11 \<leftarrow> one_of quote_char r10]"

definition component_rx :: "string \<Rightarrow> (string \<times> string) list" where
  \<comment> \<open>\<^verbatim>\<open>@Component\({[^}]+}\)\<close>; the pattern has no group, so the whole match is returned\<close>
  "component_rx s =
     [(''@Component({'' @ body @ ''})'', r3).
        r1 \<leftarrow> lit ''@Component({'' s,
        (body, r2) \<leftarrow> many1 not_rbrace r1,
        r3 \<leftarrow> lit ''})'' r2]"

section \<open>The pattern extractor\<close>

datatype pattern =
    ServiceMethod (service: string) (method_name: string) (full: string)
  | Import (items: "string list") (path: string)
  | Component (issue: string) (code: string)

definition extract_code_patterns :: "string \<Rightarrow> pattern list" where
  "extract_code_patterns content =
     (let patterns = [];
          service_calls = findall service_rx content;
          patterns = foldl (\<lambda>ps (service, method_name).
                        ps @ [ServiceMethod service method_name
                                (''this.'' @ service @ ''.'' @ method_name @ ''()'')])
                      patterns service_calls;
          imports = findall import_rx content;
          patterns = foldl (\<lambda>ps (imported, path).
                        ps @ [Import (map strip (split_on CHR '','' imported)) path])
                      patterns imports;
          components = findall component_rx content;
          patterns = foldl (\<lambda>ps comp.
                        if \<not> contains ''standalone: true'' comp
                        then ps @ [Component ''missing_standalone'' (take 50 comp @ ''...'')]
                        else ps)
                      patterns components
      in patterns)"

section \<open>The external checker\<close>

text \<open>
  Where the source raises, the model returns the exception: \<^verbatim>\<open>AttributeError\<close> and
  \<^verbatim>\<open>TypeError\<close> on a value of the wrong shape, \<^verbatim>\<open>OSError\<close> (with its description) from the
  file system.
\<close>

datatype py_error = AttributeError | TypeError | OSError string

text \<open>
  \<^verbatim>\<open>validate_with_antihall\<close> reads the file system and starts a process. The world is a
  parameter: what the test of the tool directory gives when the call asks, and how a
  process started with a given command line and working directory ends. Both may differ
  from one call to the next, so they take the number of the call.

  \<^verbatim>\<open>Path.exists()\<close> (line 57, before the \<^verbatim>\<open>try\<close>) answers true or false, or raises: it
  turns a missing path into false, and lets any other \<^verbatim>\<open>OSError\<close> of the underlying
  \<^verbatim>\<open>stat\<close> pass, such as the \<^verbatim>\<open>PermissionError\<close> of a directory on the way that the user
  may not search. \<^verbatim>\<open>subprocess.run\<close> (inside the \<^verbatim>\<open>try\<close>) either completes (whatever the
  exit status: there is no \<^verbatim>\<open>check=True\<close>) with the two captured texts, or raises an
  exception (the timeout, a failure to start the process), of which the handler keeps
  \<^verbatim>\<open>str(e)\<close>. The function returns its result with the list of the processes it started.
\<close>

datatype run_outcome =
    Completed (stdout: string) (stderr: string)
  | Raised (description: string)

record world =
  dir_exists :: "nat \<Rightarrow> string \<Rightarrow> py_error + bool"
  run :: "nat \<Rightarrow> string list \<Rightarrow> string \<Rightarrow> run_outcome"

type_synonym check_result = "string option \<times> string"

definition antihall_dir :: string where
  "antihall_dir = ''/home/ldp/VF/Apps/FibreFlow/antiHall''"

definition validate_with_antihall ::
    "world \<Rightarrow> nat \<Rightarrow> string \<Rightarrow> py_error + (check_result \<times> (string list \<times> string) list)" where
  "validate_with_antihall w n code_snippet =
     (case dir_exists w n antihall_dir of
        Inl raised \<Rightarrow> Inl raised
      | Inr found \<Rightarrow>
          (if \<not> found
           then Inr ((None, ''antiHall directory not found''), [])
           else
             (let cmd = [''npm'', ''run'', ''check'', code_snippet] in
              case run w n cmd antihall_dir of
                Completed out err \<Rightarrow> Inr ((Some out, err), [(cmd, antihall_dir)])
              | Raised e \<Rightarrow> Inr ((None, e), [(cmd, antihall_dir)]))))"

section \<open>The hook\<close>

text \<open>
  The hook data is a JSON-like Python value. A dictionary is an association list in
  insertion order; \<^const>\<open>AList.update\<close> is Python's item assignment (an existing key
  keeps its place, a new key goes to the end). The checker is a parameter of the hook; a
  call of it may raise, and the exception then leaves the hook, before the record is
  changed.
\<close>

datatype json =
    JNull
  | JBool bool
  | JInt int
  | JStr string
  | JList "json list"
  | JDict "(string \<times> json) list"

definition dict_get :: "(string \<times> json) list \<Rightarrow> string \<Rightarrow> json \<Rightarrow> json" where
  \<comment> \<open>\<^verbatim>\<open>d.get(key, default)\<close>\<close>
  "dict_get d k dflt = (case map_of d k of None \<Rightarrow> dflt | Some v \<Rightarrow> v)"

fun truthy :: "json \<Rightarrow> bool" where
  "truthy JNull = False"
| "truthy (JBool b) = b"
| "truthy (JInt i) = (i \<noteq> 0)"
| "truthy (JStr s) = (s \<noteq> [])"
| "truthy (JList xs) = (xs \<noteq> [])"
| "truthy (JDict d) = (d \<noteq> [])"

fun iterate :: "json \<Rightarrow> py_error + json list" where
  \<comment> \<open>\<^verbatim>\<open>for e in v\<close>: a list gives its elements, a dictionary its keys, a text its
      characters; the other values are not iterable\<close>
  "iterate (JList xs) = Inr xs"
| "iterate (JDict d) = Inr (map (\<lambda>(k, v). JStr k) d)"
| "iterate (JStr s) = Inr (map (\<lambda>c. JStr [c]) s)"
| "iterate v = Inl TypeError"

fun get_new_strings :: "json list \<Rightarrow> py_error + json list" where
  \<comment> \<open>\<^verbatim>\<open>[e.get('new_string', '') for e in edits]\<close>\<close>
  "get_new_strings [] = Inr []"
| "get_new_strings (JDict d # es) =
     (case get_new_strings es of
        Inl err \<Rightarrow> Inl err
      | Inr vs \<Rightarrow> Inr (dict_get d ''new_string'' (JStr []) # vs))"
| "get_new_strings (v # es) = Inl AttributeError"

fun all_strings :: "json list \<Rightarrow> py_error + string list" where
  \<comment> \<open>\<^verbatim>\<open>str.join\<close> accepts texts only\<close>
  "all_strings [] = Inr []"
| "all_strings (JStr s # vs) =
     (case all_strings vs of Inl err \<Rightarrow> Inl err | Inr ss \<Rightarrow> Inr (s # ss))"
| "all_strings (v # vs) = Inl TypeError"

definition resolve_content :: "json \<Rightarrow> (string \<times> json) list \<Rightarrow> py_error + json" where
  \<comment> \<open>lines 91 to 98 of the source\<close>
  "resolve_content tool_name params =
     (if tool_name = JStr ''Write'' then Inr (dict_get params ''content'' (JStr []))
      else if tool_name = JStr ''Edit'' then Inr (dict_get params ''new_string'' (JStr []))
      else if tool_name = JStr ''MultiEdit'' then
        (case iterate (dict_get params ''edits'' (JList [])) of
           Inl err \<Rightarrow> Inl err
         | Inr edits \<Rightarrow>
             (case get_new_strings edits of
                Inl err \<Rightarrow> Inl err
              | Inr vs \<Rightarrow>
                  (case all_strings vs of
                     Inl err \<Rightarrow> Inl err
                   | Inr ss \<Rightarrow> Inr (JStr (join [newline] ss)))))
      else Inr (JStr []))"

record issue_rec =
  itype :: string
  message :: string
  suggestion :: string

fun collect_issues ::
    "(nat \<Rightarrow> string \<Rightarrow> py_error + check_result) \<Rightarrow> nat \<Rightarrow> pattern list \<Rightarrow>
       py_error + issue_rec list" where
  \<comment> \<open>the loop of lines 107 to 122; \<open>n\<close> counts the calls of the checker so far\<close>
  "collect_issues check n [] = Inr []"
| "collect_issues check n (ServiceMethod svc meth fl # ps) =
     (case check n fl of
        Inl raised \<Rightarrow> Inl raised
      | Inr (out, err) \<Rightarrow>
          (case collect_issues check (Suc n) ps of
             Inl raised \<Rightarrow> Inl raised
           | Inr rest \<Rightarrow>
               (if (case out of None \<Rightarrow> False
                    | Some text \<Rightarrow> text \<noteq> [] \<and> contains ''does not exist'' text)
                then Inr (\<lparr>itype = ''hallucination'',
                           message = ''Method '' @ [squote] @ meth @ [squote] @
                                     '' not found in '' @ svc,
                           suggestion = ''Check available methods with antiHall''\<rparr> # rest)
                else Inr rest)))"
| "collect_issues check n (Component iss cd # ps) =
     (case collect_issues check n ps of
        Inl raised \<Rightarrow> Inl raised
      | Inr rest \<Rightarrow>
          (if iss = ''missing_standalone''
           then Inr (\<lparr>itype = ''pattern_violation'',
                      message = ''Component must use standalone: true'',
                      suggestion = ''All FibreFlow components must be standalone''\<rparr> # rest)
           else Inr rest))"
| "collect_issues check n (Import its pth # ps) = collect_issues check n ps"

definition issue_json :: "issue_rec \<Rightarrow> json" where
  "issue_json i =
     JDict [(''type'', JStr (itype i)), (''message'', JStr (message i)),
            (''suggestion'', JStr (suggestion i))]"

datatype out_line =
    Header
  | Message string
  | Suggestion string
  | Blank

definition print_warnings :: "issue_rec list \<Rightarrow> out_line list" where
  \<comment> \<open>lines 129 to 134: what is written to the standard output, one entry per
      \<^verbatim>\<open>print\<close>\<close>
  "print_warnings issues =
     Header #
     concat (map (\<lambda>i. Message (message i) #
                       (if suggestion i \<noteq> [] then [Suggestion (suggestion i)] else []))
               issues) @
     [Blank]"

definition suffixes_ts :: "string list" where
  "suffixes_ts = [''.ts'', ''.component.ts'', ''.service.ts'']"

definition report ::
    "(nat \<Rightarrow> string \<Rightarrow> py_error + check_result) \<Rightarrow> (string \<times> json) list \<Rightarrow> string \<Rightarrow>
       py_error + ((string \<times> json) list \<times> out_line list)" where
  \<comment> \<open>lines 103 to 136: extract, check, attach and print; the result is the returned
      record with the printed lines\<close>
  "report check hook_data content =
     (let patterns = extract_code_patterns content in
      case collect_issues check 0 patterns of
        Inl raised \<Rightarrow> Inl raised
      | Inr validation_issues \<Rightarrow>
          (if validation_issues \<noteq> []
           then Inr (AList.update ''validation_warnings''
                       (JList (map issue_json validation_issues)) hook_data,
                     print_warnings validation_issues)
           else Inr (hook_data, [])))"

definition main ::
    "(nat \<Rightarrow> string \<Rightarrow> py_error + check_result) \<Rightarrow> (string \<times> json) list \<Rightarrow>
       py_error + ((string \<times> json) list \<times> out_line list)" where
  \<comment> \<open>\<open>check\<close> is what the name \<^verbatim>\<open>validate_with_antihall\<close> is bound to: the function
      above, or the mock of a test. \<^verbatim>\<open>re.findall\<close> raises on a content that is not a
      text.\<close>
  "main check hook_data =
     (let tool_name = dict_get hook_data ''tool_name'' (JStr []) in
      if tool_name \<notin> set [JStr ''Write'', JStr ''Edit'', JStr ''MultiEdit'']
      then Inr (hook_data, [])
      else
        (case dict_get hook_data ''params'' (JDict []) of
           JDict params \<Rightarrow>
             (case dict_get params ''file_path'' (JStr []) of
                JStr file_path \<Rightarrow>
                  (if \<not> endswith_any file_path suffixes_ts then Inr (hook_data, [])
                   else
                     (case resolve_content tool_name params of
                        Inl err \<Rightarrow> Inl err
                      | Inr content \<Rightarrow>
                          (if \<not> truthy content then Inr (hook_data, [])
                           else
                             (case content of
                                JStr text \<Rightarrow> report check hook_data text
                              | _ \<Rightarrow> Inl TypeError))))
              | _ \<Rightarrow> Inl AttributeError)
         | _ \<Rightarrow> Inl AttributeError))"

definition hook :: "world \<Rightarrow> (string \<times> json) list \<Rightarrow>
    py_error + ((string \<times> json) list \<times> out_line list)" where
  \<comment> \<open>the hook as it runs: \<^verbatim>\<open>main\<close> with the checker of this file\<close>
  "hook w hook_data =
     main (\<lambda>n snippet.
             case validate_with_antihall w n snippet of
               Inl raised \<Rightarrow> Inl raised
             | Inr (answer, started) \<Rightarrow> Inr answer)
          hook_data"

definition test_data :: "(string \<times> json) list" where
  \<comment> \<open>the sample record of the source's \<^verbatim>\<open>__main__\<close> block\<close>
  "test_data =
     [(''tool_name'', JStr ''Write''),
      (''params'', JDict [(''file_path'', JStr ''test.service.ts''),
                          (''content'', JStr ''this.authService.loginWithMagicLink()'')])]"

subsection \<open>Notions the properties are stated with\<close>

definition well_formed_edit :: "json \<Rightarrow> bool" where
  \<comment> \<open>a sub-edit of the shape the invoking system sends: a dictionary whose
      \<^verbatim>\<open>new_string\<close>, when present, is a text\<close>
  "well_formed_edit e =
     (case e of
        JDict d \<Rightarrow>
          (case map_of d ''new_string'' of
             None \<Rightarrow> True
           | Some (JStr s) \<Rightarrow> True
           | _ \<Rightarrow> False)
      | _ \<Rightarrow> False)"

definition new_string_of :: "json \<Rightarrow> string" where
  \<comment> \<open>the replacement text of a sub-edit, the empty text when it has none\<close>
  "new_string_of e =
     (case e of
        JDict d \<Rightarrow> (case map_of d ''new_string'' of Some (JStr s) \<Rightarrow> s | _ \<Rightarrow> [])
      | _ \<Rightarrow> [])"

definition gates_pass :: "(string \<times> json) list \<Rightarrow> string \<Rightarrow> bool" where
  \<comment> \<open>the record passes every gate of \<^verbatim>\<open>main\<close>, and \<open>c\<close> is the content resolved from it:
      a non-empty text\<close>
  "gates_pass hook_data c =
     (\<exists>params file_path.
        dict_get hook_data ''tool_name'' (JStr []) \<in> {JStr ''Write'', JStr ''Edit'', JStr ''MultiEdit''} \<and>
        dict_get hook_data ''params'' (JDict []) = JDict params \<and>
        dict_get params ''file_path'' (JStr []) = JStr file_path \<and>
        endswith_any file_path suffixes_ts \<and>
        resolve_content (dict_get hook_data ''tool_name'' (JStr [])) params = Inr (JStr c) \<and>
        c \<noteq> [])"

definition sample_import_line :: string where
  \<comment> \<open>the import line \<^verbatim>\<open>import { A, B } from 'x/y'\<close> of the specification's example\<close>
  "sample_import_line = ''import { A, B } from '' @ [squote] @ ''x/y'' @ [squote]"

section \<open>Properties\<close>

subsection \<open>Suffixes and substrings\<close>

lemma endswith_iff: "endswith s suf \<longleftrightarrow> (\<exists>pre. s = pre @ suf)"
proof
  assume "endswith s suf"
  then have "s = take (length s - length suf) s @ suf"
    by (metis append_take_drop_id endswith_def)
  then show "\<exists>pre. s = pre @ suf" ..
next
  assume "\<exists>pre. s = pre @ suf"
  then show "endswith s suf" by (auto simp: endswith_def)
qed

lemma endswith_append: "endswith s suf \<Longrightarrow> endswith s (drop k suf)"
  by (metis append.assoc append_take_drop_id endswith_iff)

lemma contains_iff: "contains sub s \<longleftrightarrow> (\<exists>a b. s = a @ sub @ b)"
proof (induction s)
  case Nil
  then show ?case by auto
next
  case (Cons c cs)
  have sw: "startswith (c # cs) sub \<longleftrightarrow> (\<exists>b. c # cs = sub @ b)"
    unfolding startswith_def by (metis append_eq_conv_conj)
  show ?case
  proof
    assume "contains sub (c # cs)"
    then consider "startswith (c # cs) sub" | "contains sub cs" by auto
    then show "\<exists>a b. c # cs = a @ sub @ b"
    proof cases
      case 1
      then obtain b where "c # cs = sub @ b" using sw by blast
      then have "c # cs = [] @ sub @ b" by simp
      then show ?thesis by blast
    next
      case 2
      then obtain a b where "cs = a @ sub @ b" using Cons.IH by blast
      then have "c # cs = (c # a) @ sub @ b" by simp
      then show ?thesis by blast
    qed
  next
    assume "\<exists>a b. c # cs = a @ sub @ b"
    then obtain a b where ab: "c # cs = a @ sub @ b" by blast
    show "contains sub (c # cs)"
    proof (cases a)
      case Nil
      then have "startswith (c # cs) sub" using ab sw by auto
      then show ?thesis by simp
    next
      case (Cons x a')
      then have "cs = a' @ sub @ b" using ab by simp
      then show ?thesis using Cons.IH by auto
    qed
  qed
qed

lemma contains_trans: "contains a b \<Longrightarrow> contains b c \<Longrightarrow> contains a c"
proof -
  assume "contains a b" "contains b c"
  then obtain p q p' q' where "b = p @ a @ q" "c = p' @ b @ q'"
    unfolding contains_iff by blast
  then have "c = (p' @ p) @ a @ (q @ q')" by simp
  then show ?thesis unfolding contains_iff by blast
qed

lemma contains_nonempty: "contains a s \<Longrightarrow> a \<noteq> [] \<Longrightarrow> s \<noteq> []"
  by (auto simp: contains_iff)

subsection \<open>The file suffix gate\<close>

text \<open>
  Claim C10. The suffix test of \<^verbatim>\<open>main\<close>, \<^verbatim>\<open>endswith(('.ts', '.component.ts', '.service.ts'))\<close>,
  holds of a path exactly when the path ends with \<^verbatim>\<open>.ts\<close>: the two longer suffixes add
  nothing, and every \<^verbatim>\<open>.ts\<close> file passes the gate.
\<close>

theorem suffix_gate_single:
  "endswith_any file_path suffixes_ts = endswith file_path ''.ts''"
proof -
  have a: "endswith file_path ''.component.ts'' \<Longrightarrow> endswith file_path ''.ts''"
    using endswith_append [of file_path "''.component.ts''" 10] by simp
  have b: "endswith file_path ''.service.ts'' \<Longrightarrow> endswith file_path ''.ts''"
    using endswith_append [of file_path "''.service.ts''" 8] by simp
  show ?thesis
    using a b by (auto simp: endswith_any_def suffixes_ts_def)
qed

theorem suffix_gate_single_witness:
  "endswith_any ''app.component.ts'' suffixes_ts \<and> endswith ''app.component.ts'' ''.ts'' \<and>
   \<not> endswith_any ''foo.txt'' suffixes_ts"
  using suffix_gate_single [of "''app.component.ts''"] suffix_gate_single [of "''foo.txt''"]
  by (simp add: endswith_def)

subsection \<open>The checker\<close>

lemma validate_with_antihall_cases:
  "(\<forall>e. dir_exists w n antihall_dir = Inl e \<longrightarrow> validate_with_antihall w n snippet = Inl e) \<and>
   (dir_exists w n antihall_dir = Inr False \<longrightarrow>
      validate_with_antihall w n snippet = Inr ((None, ''antiHall directory not found''), [])) \<and>
   (dir_exists w n antihall_dir = Inr True \<longrightarrow>
      (\<forall>e. run w n [''npm'', ''run'', ''check'', snippet] antihall_dir = Raised e \<longrightarrow>
         validate_with_antihall w n snippet =
           Inr ((None, e), [([''npm'', ''run'', ''check'', snippet], antihall_dir)])) \<and>
      (\<forall>out err. run w n [''npm'', ''run'', ''check'', snippet] antihall_dir = Completed out err \<longrightarrow>
         validate_with_antihall w n snippet =
           Inr ((Some out, err), [([''npm'', ''run'', ''check'', snippet], antihall_dir)])))"
  by (simp add: validate_with_antihall_def)

text \<open>
  Claim C4. The three outcomes the claim names are those of the code whenever the test
  of the tool directory answers (the lemma above): no output with the message
  \<^verbatim>\<open>antiHall directory not found\<close> and no process when the directory is missing, no output
  with the description of the failure when the run raises, the two captured texts when
  it completes. But the test itself stands before the \<^verbatim>\<open>try\<close>: when it raises, the
  exception leaves \<^verbatim>\<open>validate_with_antihall\<close>, and with it the hook. Below, the tool
  directory lies under a directory the user may not search.
\<close>

theorem validate_with_antihall_raises:
  "validate_with_antihall
     \<lparr>dir_exists = (\<lambda>n p. Inl (OSError ''[Errno 13] Permission denied'')),
      run = (\<lambda>n cmd cwd. Completed [] [])\<rparr>
     0 ''this.authService.loginWithMagicLink()'' =
     Inl (OSError ''[Errno 13] Permission denied'') \<and>
   hook
     \<lparr>dir_exists = (\<lambda>n p. Inl (OSError ''[Errno 13] Permission denied'')),
      run = (\<lambda>n cmd cwd. Completed [] [])\<rparr>
     test_data =
     Inl (OSError ''[Errno 13] Permission denied'')"
proof -
  have e: "extract_code_patterns ''this.authService.loginWithMagicLink()'' =
     [ServiceMethod ''authService'' ''loginWithMagicLink'' ''this.authService.loginWithMagicLink()'']"
    by code_simp
  have s: "endswith_any ''test.service.ts'' suffixes_ts" by code_simp
  show ?thesis
    using s
    by (simp add: validate_with_antihall_def hook_def main_def test_data_def dict_get_def
        resolve_content_def report_def e)
qed

subsection \<open>The hook on the sample record\<close>

lemma extract_login:
  "extract_code_patterns ''this.authService.loginWithMagicLink()'' =
     [ServiceMethod ''authService'' ''loginWithMagicLink'' ''this.authService.loginWithMagicLink()'']"
  by code_simp

lemma dne_sub: "contains ''does not exist'' ''Method loginWithMagicLink does not exist''"
  by code_simp

lemma ends_test: "endswith_any ''test.service.ts'' suffixes_ts"
  by code_simp

lemma main_test_data:
  assumes "check 0 ''this.authService.loginWithMagicLink()'' = Inr (Some out, err)"
      and "contains ''Method loginWithMagicLink does not exist'' out"
  shows "main check test_data =
     Inr (test_data @
            [(''validation_warnings'',
              JList [JDict [(''type'', JStr ''hallucination''),
                            (''message'', JStr (''Method '' @ [squote] @ ''loginWithMagicLink'' @
                                                 [squote] @ '' not found in authService'')),
                            (''suggestion'', JStr ''Check available methods with antiHall'')]])],
          [Header,
           Message (''Method '' @ [squote] @ ''loginWithMagicLink'' @ [squote] @
                    '' not found in authService''),
           Suggestion ''Check available methods with antiHall'',
           Blank])"
proof -
  have ne: "out \<noteq> []" using assms(2) contains_nonempty by blast
  have dne: "contains ''does not exist'' out"
    using contains_trans [OF dne_sub assms(2)] .
  have issues:
    "collect_issues check 0 (extract_code_patterns ''this.authService.loginWithMagicLink()'') =
      Inr [\<lparr>itype = ''hallucination'',
            message = ''Method '' @ [squote] @ ''loginWithMagicLink'' @ [squote] @
                      '' not found in authService'',
            suggestion = ''Check available methods with antiHall''\<rparr>]"
    using assms(1) ne dne by (simp add: extract_login)
  have rep: "report check test_data ''this.authService.loginWithMagicLink()'' =
     Inr (test_data @
            [(''validation_warnings'',
              JList [JDict [(''type'', JStr ''hallucination''),
                            (''message'', JStr (''Method '' @ [squote] @ ''loginWithMagicLink'' @
                                                 [squote] @ '' not found in authService'')),
                            (''suggestion'', JStr ''Check available methods with antiHall'')]])],
          [Header,
           Message (''Method '' @ [squote] @ ''loginWithMagicLink'' @ [squote] @
                    '' not found in authService''),
           Suggestion ''Check available methods with antiHall'',
           Blank])"
    by (simp add: report_def Let_def issues issue_json_def print_warnings_def test_data_def)
  show ?thesis
    using rep ends_test
    by (simp add: main_def test_data_def dict_get_def resolve_content_def)
qed

text \<open>
  Claim C3. On the record \<^verbatim>\<open>{tool_name: "Write", params: {file_path: "test.service.ts",
  content: "this.authService.loginWithMagicLink()"}}\<close>, when the checker answers the first
  call with a standard output that contains \<^verbatim>\<open>Method loginWithMagicLink does not exist\<close>,
  \<^verbatim>\<open>main\<close> returns the record with one more field, \<^verbatim>\<open>validation_warnings\<close>, whose value is
  the one-element list of the hallucination issue with the message
  \<^verbatim>\<open>Method 'loginWithMagicLink' not found in authService\<close> and the suggestion
  \<^verbatim>\<open>Check available methods with antiHall\<close>; the warning block is printed.
\<close>

theorem main_hallucination_scenario:
  assumes "check 0 ''this.authService.loginWithMagicLink()'' = Inr (Some out, err)"
      and "contains ''Method loginWithMagicLink does not exist'' out"
  shows "main check test_data =
     Inr (test_data @
            [(''validation_warnings'',
              JList [JDict [(''type'', JStr ''hallucination''),
                            (''message'', JStr (''Method '' @ [squote] @ ''loginWithMagicLink'' @
                                                 [squote] @ '' not found in authService'')),
                            (''suggestion'', JStr ''Check available methods with antiHall'')]])],
          [Header,
           Message (''Method '' @ [squote] @ ''loginWithMagicLink'' @ [squote] @
                    '' not found in authService''),
           Suggestion ''Check available methods with antiHall'',
           Blank])"
  using assms by (rule main_test_data)

theorem main_hallucination_scenario_witness:
  "main (\<lambda>n snippet. Inr (Some ''Error: Method loginWithMagicLink does not exist on AuthService'', []))
        test_data =
     Inr (test_data @
            [(''validation_warnings'',
              JList [JDict [(''type'', JStr ''hallucination''),
                            (''message'', JStr (''Method '' @ [squote] @ ''loginWithMagicLink'' @
                                                 [squote] @ '' not found in authService'')),
                            (''suggestion'', JStr ''Check available methods with antiHall'')]])],
          [Header,
           Message (''Method '' @ [squote] @ ''loginWithMagicLink'' @ [squote] @
                    '' not found in authService''),
           Suggestion ''Check available methods with antiHall'',
           Blank])"
proof -
  have c: "contains ''Method loginWithMagicLink does not exist''
             ''Error: Method loginWithMagicLink does not exist on AuthService''"
    by code_simp
  show ?thesis
    by (rule main_hallucination_scenario [OF _ c]) simp
qed

subsection \<open>The gates and the frame of the hook\<close>

lemma get_new_strings_wf:
  "list_all well_formed_edit es \<Longrightarrow>
     get_new_strings es = Inr (map (\<lambda>e. JStr (new_string_of e)) es)"
proof (induction es)
  case Nil
  then show ?case by simp
next
  case (Cons e es)
  then obtain d where d: "e = JDict d"
    by (auto simp: well_formed_edit_def split: json.splits)
  have "dict_get d ''new_string'' (JStr []) = JStr (new_string_of e)"
    using Cons.prems d
    by (auto simp: well_formed_edit_def new_string_of_def dict_get_def split: option.splits json.splits)
  then show ?case using Cons d by simp
qed

lemma all_strings_JStr: "all_strings (map (\<lambda>e. JStr (f e)) es) = Inr (map f es)"
  by (induction es) auto

lemma report_cases:
  "report check hook_data c =
     (case collect_issues check 0 (extract_code_patterns c) of
        Inl raised \<Rightarrow> Inl raised
      | Inr issues \<Rightarrow>
          Inr (if issues = [] then hook_data
               else AList.update ''validation_warnings'' (JList (map issue_json issues)) hook_data,
               if issues = [] then [] else print_warnings issues))"
  by (simp add: report_def Let_def split: sum.splits)

lemma main_unfold:
  assumes "dict_get hook_data ''tool_name'' (JStr []) = t"
      and "t = JStr ''Write'' \<or> t = JStr ''Edit'' \<or> t = JStr ''MultiEdit''"
      and "dict_get hook_data ''params'' (JDict []) = JDict params"
      and "dict_get params ''file_path'' (JStr []) = JStr file_path"
      and "endswith_any file_path suffixes_ts"
  shows "main check hook_data =
     (case resolve_content t params of
        Inl err \<Rightarrow> Inl err
      | Inr content \<Rightarrow>
          (if \<not> truthy content then Inr (hook_data, [])
           else (case content of
                   JStr c \<Rightarrow> report check hook_data c
                 | _ \<Rightarrow> Inl TypeError)))"
  using assms by (auto simp: main_def Let_def)

lemma main_pass:
  assumes "gates_pass hook_data c"
  shows "main check hook_data = report check hook_data c"
proof -
  from assms obtain params file_path where
      t: "dict_get hook_data ''tool_name'' (JStr []) \<in> {JStr ''Write'', JStr ''Edit'', JStr ''MultiEdit''}"
      and p: "dict_get hook_data ''params'' (JDict []) = JDict params"
      and f: "dict_get params ''file_path'' (JStr []) = JStr file_path"
      and e: "endswith_any file_path suffixes_ts"
      and r: "resolve_content (dict_get hook_data ''tool_name'' (JStr [])) params = Inr (JStr c)"
      and c: "c \<noteq> []"
    unfolding gates_pass_def by blast
  from t have tool: "dict_get hook_data ''tool_name'' (JStr []) = JStr ''Write'' \<or>
      dict_get hook_data ''tool_name'' (JStr []) = JStr ''Edit'' \<or>
      dict_get hook_data ''tool_name'' (JStr []) = JStr ''MultiEdit''"
    by simp
  show ?thesis
    using main_unfold [OF refl tool p f e, of check] r c by simp
qed

lemma main_cases:
  assumes "main check hook_data = Inr (r, out)"
  shows "(r, out) = (hook_data, []) \<or> (\<exists>c. gates_pass hook_data c)"
proof (cases "dict_get hook_data ''tool_name'' (JStr []) \<in> set [JStr ''Write'', JStr ''Edit'', JStr ''MultiEdit'']")
  case False
  then show ?thesis using assms by (simp add: main_def Let_def)
next
  case True
  then have tool: "dict_get hook_data ''tool_name'' (JStr []) = JStr ''Write'' \<or>
      dict_get hook_data ''tool_name'' (JStr []) = JStr ''Edit'' \<or>
      dict_get hook_data ''tool_name'' (JStr []) = JStr ''MultiEdit''"
    by simp
  have tin: "dict_get hook_data ''tool_name'' (JStr []) \<in> {JStr ''Write'', JStr ''Edit'', JStr ''MultiEdit''}"
    using True by simp
  show ?thesis
  proof (cases "dict_get hook_data ''params'' (JDict [])")
    case (JDict params)
    show ?thesis
    proof (cases "dict_get params ''file_path'' (JStr [])")
      case (JStr file_path)
      show ?thesis
      proof (cases "endswith_any file_path suffixes_ts")
        case False
        then show ?thesis using assms JDict JStr by (simp add: main_def Let_def split: if_splits)
      next
        case suf: True
        note mu = main_unfold [OF refl tool JDict JStr suf, of check]
        show ?thesis
        proof (cases "resolve_content (dict_get hook_data ''tool_name'' (JStr [])) params")
          case (Inl e)
          then show ?thesis using assms mu by simp
        next
          case (Inr content)
          show ?thesis
          proof (cases "truthy content")
            case False
            then show ?thesis using assms mu Inr by simp
          next
            case tr: True
            show ?thesis
            proof (cases content)
              case (JStr c)
              then have "c \<noteq> []" using tr by simp
              then have "gates_pass hook_data c"
                unfolding gates_pass_def
                using tin JDict \<open>dict_get params ''file_path'' (JStr []) = JStr file_path\<close> suf Inr JStr
                by blast
              then show ?thesis by blast
            qed (use assms mu Inr tr in simp_all)
          qed
        qed
      qed
    qed (use assms True JDict in \<open>auto simp add: main_def Let_def\<close>)
  qed (use assms True in \<open>auto simp add: main_def Let_def\<close>)
qed

text \<open>
  The other scenario of the sample record: when the tool directory does not exist, the
  hook with the checker of this file returns the record as it was and prints nothing.
\<close>

lemma hook_tool_absent:
  assumes "dir_exists w 0 antihall_dir = Inr False"
  shows "hook w test_data = Inr (test_data, [])"
proof -
  have "collect_issues
          (\<lambda>n snippet. case validate_with_antihall w n snippet of
                          Inl raised \<Rightarrow> Inl raised
                        | Inr (answer, started) \<Rightarrow> Inr answer) 0
          (extract_code_patterns ''this.authService.loginWithMagicLink()'') = Inr []"
    using assms by (simp add: extract_login validate_with_antihall_def)
  then have "report
          (\<lambda>n snippet. case validate_with_antihall w n snippet of
                          Inl raised \<Rightarrow> Inl raised
                        | Inr (answer, started) \<Rightarrow> Inr answer) test_data
          ''this.authService.loginWithMagicLink()'' = Inr (test_data, [])"
    by (simp add: report_cases)
  then show ?thesis
    using ends_test
    by (simp add: hook_def main_def test_data_def dict_get_def resolve_content_def)
qed

text \<open>
  Claim C5. \<^verbatim>\<open>main\<close> returns the record it was given, with nothing added and nothing
  printed, whenever a gate fails: the tool name (the empty text when the key is missing)
  is not \<^verbatim>\<open>Write\<close>, \<^verbatim>\<open>Edit\<close> or \<^verbatim>\<open>MultiEdit\<close>; or the file path (the empty text when
  \<^verbatim>\<open>params\<close> or \<^verbatim>\<open>file_path\<close> is missing) ends with none of the suffixes; or the content
  resolved for the tool (the empty text when its key is missing) is empty or otherwise
  false.
\<close>

theorem main_gates:
  assumes "dict_get hook_data ''tool_name'' (JStr []) \<notin> {JStr ''Write'', JStr ''Edit'', JStr ''MultiEdit''} \<or>
           (\<exists>params. dict_get hook_data ''params'' (JDict []) = JDict params \<and>
              (\<exists>file_path. dict_get params ''file_path'' (JStr []) = JStr file_path \<and>
                 (\<not> endswith_any file_path suffixes_ts \<or>
                  (\<exists>content.
                     resolve_content (dict_get hook_data ''tool_name'' (JStr [])) params = Inr content \<and>
                     \<not> truthy content))))"
  shows "main check hook_data = Inr (hook_data, [])"
proof -
  from assms consider
      (tool) "dict_get hook_data ''tool_name'' (JStr []) \<notin> {JStr ''Write'', JStr ''Edit'', JStr ''MultiEdit''}"
    | (suffix) params file_path where
        "dict_get hook_data ''params'' (JDict []) = JDict params"
        "dict_get params ''file_path'' (JStr []) = JStr file_path"
        "\<not> endswith_any file_path suffixes_ts"
    | (empty) params file_path content where
        "dict_get hook_data ''tool_name'' (JStr []) \<in> {JStr ''Write'', JStr ''Edit'', JStr ''MultiEdit''}"
        "dict_get hook_data ''params'' (JDict []) = JDict params"
        "dict_get params ''file_path'' (JStr []) = JStr file_path"
        "endswith_any file_path suffixes_ts"
        "resolve_content (dict_get hook_data ''tool_name'' (JStr [])) params = Inr content"
        "\<not> truthy content"
    by blast
  then show ?thesis
  proof cases
    case tool
    then show ?thesis by (simp add: main_def Let_def)
  next
    case suffix
    then show ?thesis by (simp add: main_def Let_def)
  next
    case empty
    from empty(1) have tool: "dict_get hook_data ''tool_name'' (JStr []) = JStr ''Write'' \<or>
      dict_get hook_data ''tool_name'' (JStr []) = JStr ''Edit'' \<or>
      dict_get hook_data ''tool_name'' (JStr []) = JStr ''MultiEdit''"
      by simp
    show ?thesis
      using main_unfold [OF refl tool empty(2,3,4), of check] empty(5,6) by simp
  qed
qed

theorem main_gates_witness:
  "main (\<lambda>n snippet. Inr (Some ''does not exist'', [])) [] = Inr ([], []) \<and>
   main (\<lambda>n snippet. Inr (Some ''does not exist'', []))
        [(''tool_name'', JStr ''Read''),
         (''params'', JDict [(''file_path'', JStr ''a.ts''), (''content'', JStr ''this.aService.b()'')])] =
     Inr ([(''tool_name'', JStr ''Read''),
           (''params'', JDict [(''file_path'', JStr ''a.ts''), (''content'', JStr ''this.aService.b()'')])],
          []) \<and>
   main (\<lambda>n snippet. Inr (Some ''does not exist'', []))
        [(''tool_name'', JStr ''Write''),
         (''params'', JDict [(''file_path'', JStr ''foo.txt''), (''content'', JStr ''this.aService.b()'')])] =
     Inr ([(''tool_name'', JStr ''Write''),
           (''params'', JDict [(''file_path'', JStr ''foo.txt''), (''content'', JStr ''this.aService.b()'')])],
          []) \<and>
   main (\<lambda>n snippet. Inr (Some ''does not exist'', [])) [(''tool_name'', JStr ''Write'')] =
     Inr ([(''tool_name'', JStr ''Write'')], []) \<and>
   main (\<lambda>n snippet. Inr (Some ''does not exist'', []))
        [(''tool_name'', JStr ''Edit''), (''params'', JDict [(''file_path'', JStr ''a.ts'')])] =
     Inr ([(''tool_name'', JStr ''Edit''), (''params'', JDict [(''file_path'', JStr ''a.ts'')])], []) \<and>
   main (\<lambda>n snippet. Inr (Some ''does not exist'', []))
        [(''tool_name'', JStr ''MultiEdit''), (''params'', JDict [(''file_path'', JStr ''a.ts'')])] =
     Inr ([(''tool_name'', JStr ''MultiEdit''), (''params'', JDict [(''file_path'', JStr ''a.ts'')])], [])"
proof -
  have ts: "endswith_any ''a.ts'' suffixes_ts" by code_simp
  have nts: "\<not> endswith_any ''foo.txt'' suffixes_ts" by code_simp
  have emp: "\<not> endswith_any [] suffixes_ts" by code_simp
  show ?thesis
    by (intro conjI; rule main_gates)
       (simp_all add: dict_get_def ts nts emp resolve_content_def)
qed

text \<open>
  Claim C6. When \<^verbatim>\<open>main\<close> returns, the returned record has, under every key other than
  \<^verbatim>\<open>validation_warnings\<close>, what the given record has there (so \<^verbatim>\<open>params\<close> and every other
  field are unchanged). When the record passes every gate and \<open>c\<close> is the content resolved
  from it, the loop over the patterns of \<open>c\<close> collects a list of issues, and the returned
  record is the given record itself when that list is empty, and the given record with
  \<^verbatim>\<open>validation_warnings\<close> set to that list (over any earlier value) when it is not. When
  the record passes no gate, the returned record is the given record.
\<close>

theorem main_frame:
  assumes "main check hook_data = Inr (r, out)"
  shows "(\<forall>k. k \<noteq> ''validation_warnings'' \<longrightarrow> map_of r k = map_of hook_data k) \<and>
         (\<forall>c. gates_pass hook_data c \<longrightarrow>
            (\<exists>issues. collect_issues check 0 (extract_code_patterns c) = Inr issues \<and>
               r = (if issues = [] then hook_data
                    else AList.update ''validation_warnings'' (JList (map issue_json issues))
                           hook_data))) \<and>
         ((\<forall>c. \<not> gates_pass hook_data c) \<longrightarrow> r = hook_data)"
proof -
  have pass: "\<exists>issues. collect_issues check 0 (extract_code_patterns c) = Inr issues \<and>
               r = (if issues = [] then hook_data
                    else AList.update ''validation_warnings'' (JList (map issue_json issues))
                           hook_data)"
    if "gates_pass hook_data c" for c
  proof -
    have rep: "report check hook_data c = Inr (r, out)"
      using main_pass [OF that, of check] assms by simp
    show ?thesis
    proof (cases "collect_issues check 0 (extract_code_patterns c)")
      case (Inl e)
      then have "report check hook_data c = Inl e" by (simp add: report_cases)
      then show ?thesis using rep by simp
    next
      case (Inr issues)
      then have "r = (if issues = [] then hook_data
                    else AList.update ''validation_warnings'' (JList (map issue_json issues))
                           hook_data)"
        using rep by (simp add: report_cases)
      then show ?thesis using Inr by simp
    qed
  qed
  have none: "r = hook_data" if "\<forall>c. \<not> gates_pass hook_data c"
  proof -
    from main_cases [OF assms] that have "(r, out) = (hook_data, [])" by blast
    then show ?thesis by simp
  qed
  have frame: "map_of r k = map_of hook_data k" if "k \<noteq> ''validation_warnings''" for k
  proof (cases "\<exists>c. gates_pass hook_data c")
    case False
    then have "r = hook_data" using none by blast
    then show ?thesis by simp
  next
    case True
    then obtain c where "gates_pass hook_data c" by blast
    from pass [OF this] obtain issues where
      "r = (if issues = [] then hook_data
            else AList.update ''validation_warnings'' (JList (map issue_json issues)) hook_data)"
      by blast
    then show ?thesis using that by (simp add: update_conv')
  qed
  show ?thesis
  proof (intro conjI allI impI)
    fix k :: string assume "k \<noteq> ''validation_warnings''"
    then show "map_of r k = map_of hook_data k" by (rule frame)
  next
    fix c assume "gates_pass hook_data c"
    then show "\<exists>issues. collect_issues check 0 (extract_code_patterns c) = Inr issues \<and>
               r = (if issues = [] then hook_data
                    else AList.update ''validation_warnings'' (JList (map issue_json issues))
                           hook_data)"
      by (rule pass)
  next
    assume "\<forall>c. \<not> gates_pass hook_data c"
    then show "r = hook_data" by (rule none)
  qed
qed

theorem main_frame_witness:
  "main (\<lambda>n snippet. Inr (Some ''Method loginWithMagicLink does not exist'', [])) test_data =
     Inr (test_data @
            [(''validation_warnings'',
              JList [JDict [(''type'', JStr ''hallucination''),
                            (''message'', JStr (''Method '' @ [squote] @ ''loginWithMagicLink'' @
                                                 [squote] @ '' not found in authService'')),
                            (''suggestion'', JStr ''Check available methods with antiHall'')]])],
          [Header,
           Message (''Method '' @ [squote] @ ''loginWithMagicLink'' @ [squote] @
                    '' not found in authService''),
           Suggestion ''Check available methods with antiHall'',
           Blank]) \<and>
   gates_pass test_data ''this.authService.loginWithMagicLink()'' \<and>
   map_of (test_data @
            [(''validation_warnings'',
              JList [JDict [(''type'', JStr ''hallucination''),
                            (''message'', JStr (''Method '' @ [squote] @ ''loginWithMagicLink'' @
                                                 [squote] @ '' not found in authService'')),
                            (''suggestion'', JStr ''Check available methods with antiHall'')]])])
          ''params'' = map_of test_data ''params'' \<and>
   test_data @
            [(''validation_warnings'',
              JList [JDict [(''type'', JStr ''hallucination''),
                            (''message'', JStr (''Method '' @ [squote] @ ''loginWithMagicLink'' @
                                                 [squote] @ '' not found in authService'')),
                            (''suggestion'', JStr ''Check available methods with antiHall'')]])] =
     AList.update ''validation_warnings''
       (JList (map issue_json
          [\<lparr>itype = ''hallucination'',
            message = ''Method '' @ [squote] @ ''loginWithMagicLink'' @ [squote] @
                      '' not found in authService'',
            suggestion = ''Check available methods with antiHall''\<rparr>]))
       test_data"
proof -
  have m: "main (\<lambda>n snippet. Inr (Some ''Method loginWithMagicLink does not exist'', [])) test_data =
     Inr (test_data @
            [(''validation_warnings'',
              JList [JDict [(''type'', JStr ''hallucination''),
                            (''message'', JStr (''Method '' @ [squote] @ ''loginWithMagicLink'' @
                                                 [squote] @ '' not found in authService'')),
                            (''suggestion'', JStr ''Check available methods with antiHall'')]])],
          [Header,
           Message (''Method '' @ [squote] @ ''loginWithMagicLink'' @ [squote] @
                    '' not found in authService''),
           Suggestion ''Check available methods with antiHall'',
           Blank])"
    by (rule main_test_data [where out = "''Method loginWithMagicLink does not exist''" and err = "[]"])
       (simp_all add: startswith_def)
  have g: "gates_pass test_data ''this.authService.loginWithMagicLink()''"
    using ends_test
    by (simp add: gates_pass_def test_data_def dict_get_def resolve_content_def)
  have i: "collect_issues (\<lambda>n snippet. Inr (Some ''Method loginWithMagicLink does not exist'', [])) 0
             (extract_code_patterns ''this.authService.loginWithMagicLink()'') =
           Inr [\<lparr>itype = ''hallucination'',
                 message = ''Method '' @ [squote] @ ''loginWithMagicLink'' @ [squote] @
                           '' not found in authService'',
                 suggestion = ''Check available methods with antiHall''\<rparr>]"
    by (simp add: extract_login startswith_def)
  from main_frame [OF m] have
    f: "\<forall>k. k \<noteq> ''validation_warnings'' \<longrightarrow>
          map_of (test_data @
            [(''validation_warnings'',
              JList [JDict [(''type'', JStr ''hallucination''),
                            (''message'', JStr (''Method '' @ [squote] @ ''loginWithMagicLink'' @
                                                 [squote] @ '' not found in authService'')),
                            (''suggestion'', JStr ''Check available methods with antiHall'')]])]) k =
          map_of test_data k"
    and p: "\<forall>c. gates_pass test_data c \<longrightarrow>
            (\<exists>issues. collect_issues (\<lambda>n snippet. Inr (Some ''Method loginWithMagicLink does not exist'', [])) 0
                         (extract_code_patterns c) = Inr issues \<and>
               test_data @
            [(''validation_warnings'',
              JList [JDict [(''type'', JStr ''hallucination''),
                            (''message'', JStr (''Method '' @ [squote] @ ''loginWithMagicLink'' @
                                                 [squote] @ '' not found in authService'')),
                            (''suggestion'', JStr ''Check available methods with antiHall'')]])] =
                 (if issues = [] then test_data
                    else AList.update ''validation_warnings'' (JList (map issue_json issues))
                           test_data))"
    by blast+
  from f have fp: "map_of (test_data @
            [(''validation_warnings'',
              JList [JDict [(''type'', JStr ''hallucination''),
                            (''message'', JStr (''Method '' @ [squote] @ ''loginWithMagicLink'' @
                                                 [squote] @ '' not found in authService'')),
                            (''suggestion'', JStr ''Check available methods with antiHall'')]])])
          ''params'' = map_of test_data ''params''"
    by simp
  from p g i have u: "test_data @
            [(''validation_warnings'',
              JList [JDict [(''type'', JStr ''hallucination''),
                            (''message'', JStr (''Method '' @ [squote] @ ''loginWithMagicLink'' @
                                                 [squote] @ '' not found in authService'')),
                            (''suggestion'', JStr ''Check available methods with antiHall'')]])] =
     AList.update ''validation_warnings''
       (JList (map issue_json
          [\<lparr>itype = ''hallucination'',
            message = ''Method '' @ [squote] @ ''loginWithMagicLink'' @ [squote] @
                      '' not found in authService'',
            suggestion = ''Check available methods with antiHall''\<rparr>]))
       test_data"
    by force
  show ?thesis using m g fp u by blast
qed

text \<open>
  Claim C7. For a \<^verbatim>\<open>MultiEdit\<close> record whose \<^verbatim>\<open>edits\<close> is a list of sub-edits (dictionaries
  whose \<^verbatim>\<open>new_string\<close>, when present, is a text), the content resolved is the
  \<^verbatim>\<open>new_string\<close> texts of the sub-edits in list order, joined with line breaks, a missing
  \<^verbatim>\<open>new_string\<close> counting as the empty text; and this text is what \<^verbatim>\<open>main\<close> extracts the
  patterns from and reports on, when it is not empty.
\<close>

theorem multiedit_content:
  assumes "dict_get params ''edits'' (JList []) = JList edits"
      and "list_all well_formed_edit edits"
  shows "resolve_content (JStr ''MultiEdit'') params =
           Inr (JStr (join [newline] (map new_string_of edits))) \<and>
         (dict_get hook_data ''tool_name'' (JStr []) = JStr ''MultiEdit'' \<and>
          dict_get hook_data ''params'' (JDict []) = JDict params \<and>
          dict_get params ''file_path'' (JStr []) = JStr file_path \<and>
          endswith_any file_path suffixes_ts \<longrightarrow>
          main check hook_data =
            (if join [newline] (map new_string_of edits) = [] then Inr (hook_data, [])
             else report check hook_data (join [newline] (map new_string_of edits))))"
proof -
  have rc: "resolve_content (JStr ''MultiEdit'') params =
           Inr (JStr (join [newline] (map new_string_of edits)))"
    using assms by (simp add: resolve_content_def get_new_strings_wf all_strings_JStr)
  then show ?thesis
    by (simp add: main_def rc)
qed

theorem multiedit_content_witness:
  "resolve_content (JStr ''MultiEdit'')
     [(''file_path'', JStr ''a.ts''),
      (''edits'', JList [JDict [(''new_string'', JStr ''ab'')], JDict [(''old_string'', JStr ''x'')],
                         JDict [(''new_string'', JStr ''cd'')]])] =
     Inr (JStr (''ab'' @ [newline] @ [newline] @ ''cd''))"
  using multiedit_content
          [of "[(''file_path'', JStr ''a.ts''),
                (''edits'', JList [JDict [(''new_string'', JStr ''ab'')],
                                   JDict [(''old_string'', JStr ''x'')],
                                   JDict [(''new_string'', JStr ''cd'')]])]"
              "[JDict [(''new_string'', JStr ''ab'')], JDict [(''old_string'', JStr ''x'')],
                JDict [(''new_string'', JStr ''cd'')]]"]
  by (simp add: dict_get_def well_formed_edit_def new_string_of_def)

section \<open>Properties of the matcher\<close>

subsection \<open>What the parts of a pattern match\<close>

lemma startswith_iff: "startswith s p \<longleftrightarrow> (\<exists>r. s = p @ r)"
  unfolding startswith_def by (metis append_eq_conv_conj)

lemma lit_set: "r \<in> set (lit p s) \<longleftrightarrow> s = p @ r"
  by (auto simp: lit_def startswith_iff)

lemma one_of_set: "r \<in> set (one_of P s) \<longleftrightarrow> (\<exists>c. P c \<and> s = c # r)"
  by (auto simp: one_of_def split: list.splits)

lemma many1_set:
  "(m, r) \<in> set (many1 P s) \<longleftrightarrow> m \<noteq> [] \<and> s = m @ r \<and> (\<forall>c\<in>set m. P c)"
proof (induction s arbitrary: m)
  case Nil
  then show ?case by simp
next
  case (Cons c cs)
  show ?case
  proof (cases "P c")
    case False
    then show ?thesis by (cases m) auto
  next
    case True
    show ?thesis
    proof (cases m)
      case Nil
      then show ?thesis using True by auto
    next
      case (Cons x m')
      show ?thesis
      proof (cases m')
        case Nil
        then show ?thesis using True Cons Cons.IH by auto
      next
        case (Cons y m'')
        then show ?thesis using True \<open>m = x # m'\<close> Cons.IH [of m'] by auto
      qed
    qed
  qed
qed

lemma many0_set:
  "(m, r) \<in> set (many0 P s) \<longleftrightarrow> s = m @ r \<and> (\<forall>c\<in>set m. P c)"
  by (cases m) (auto simp: many0_def many1_set)

lemma bex_lit: "(\<exists>r\<in>set (lit p s). Q r) \<longleftrightarrow> (\<exists>r. s = p @ r \<and> Q r)"
  by (auto simp: lit_set)

lemma bex_one_of: "(\<exists>r\<in>set (one_of P s). Q r) \<longleftrightarrow> (\<exists>c r. P c \<and> s = c # r \<and> Q r)"
  by (auto simp: one_of_set)

lemma bex_many1:
  "(\<exists>x\<in>set (many1 P s). Q x) \<longleftrightarrow>
     (\<exists>m r. m \<noteq> [] \<and> s = m @ r \<and> (\<forall>c\<in>set m. P c) \<and> Q (m, r))"
  by (simp add: Bex_def many1_set conj_ac)

lemma bex_many0:
  "(\<exists>x\<in>set (many0 P s). Q x) \<longleftrightarrow> (\<exists>m r. s = m @ r \<and> (\<forall>c\<in>set m. P c) \<and> Q (m, r))"
  by (simp add: Bex_def many0_set conj_ac)

lemma service_rx_set:
  "((svc, m), r) \<in> set (service_rx s) \<longleftrightarrow>
     (\<exists>w. w \<noteq> [] \<and> (\<forall>c\<in>set w. word_char c) \<and> svc = w @ ''Service'') \<and>
     m \<noteq> [] \<and> (\<forall>c\<in>set m. word_char c) \<and>
     s = ''this.'' @ svc @ ''.'' @ m @ ''('' @ r"
  unfolding service_rx_def
  by (simp add: bex_lit bex_many1 image_iff) auto

lemma first_match_mem: "first_match rx s = Some x \<Longrightarrow> x \<in> set (rx s)"
  by (auto simp: first_match_def split: list.splits)

lemma first_match_None: "first_match rx s = None \<longleftrightarrow> rx s = []"
  by (auto simp: first_match_def split: list.splits)

lemma first_match_unique:
  assumes "\<And>y. y \<in> set (rx s) \<Longrightarrow> y = x" and "x \<in> set (rx s)"
  shows "first_match rx s = Some x"
proof (cases "rx s")
  case Nil
  then show ?thesis using assms(2) by simp
next
  case (Cons y ys)
  then have "y = x" using assms(1) by simp
  then show ?thesis using Cons by (simp add: first_match_def)
qed

lemma split_unique:
  assumes "a @ c # r = a' @ c' # r'"
      and "\<forall>x\<in>set a. P x" and "\<forall>x\<in>set a'. P x" and "\<not> P c" and "\<not> P c'"
  shows "a = a' \<and> c = c' \<and> r = r'"
proof -
  have "takeWhile P (a @ c # r) = a" using assms(2,4) by (simp add: takeWhile_append2)
  moreover have "takeWhile P (a' @ c' # r') = a'" using assms(3,5) by (simp add: takeWhile_append2)
  ultimately have "a = a'" using assms(1) by simp
  then show ?thesis using assms(1) by simp
qed

lemma not_word_dot: "\<not> word_char CHR ''.''"
  by (simp add: word_char_def)

lemma not_word_paren: "\<not> word_char CHR ''(''"
  by (simp add: word_char_def)

lemma word_Service: "\<forall>c\<in>set ''Service''. word_char c"
  by (simp add: word_char_def)

text \<open>The shape of a service call match, and that a text has at most one.\<close>

lemma service_shape_unique:
  assumes "''this.'' @ svc @ ''.'' @ m @ ''('' @ r = ''this.'' @ svc' @ ''.'' @ m' @ ''('' @ r'"
      and "\<forall>c\<in>set svc. word_char c" and "\<forall>c\<in>set svc'. word_char c"
      and "\<forall>c\<in>set m. word_char c" and "\<forall>c\<in>set m'. word_char c"
  shows "svc = svc' \<and> m = m' \<and> r = r'"
proof -
  from assms(1) have "svc @ CHR ''.'' # (m @ ''('' @ r) = svc' @ CHR ''.'' # (m' @ ''('' @ r')"
    by simp
  from split_unique [OF this assms(2,3) not_word_dot not_word_dot]
  have s: "svc = svc'" and "m @ CHR ''('' # r = m' @ CHR ''('' # r'" by simp_all
  from split_unique [OF this(2) assms(4,5) not_word_paren not_word_paren]
  show ?thesis using s by simp
qed

lemma service_rx_unique:
  assumes "x \<in> set (service_rx s)" and "y \<in> set (service_rx s)"
  shows "y = x"
proof -
  obtain svc m r where x: "x = ((svc, m), r)" by (metis surj_pair)
  obtain svc' m' r' where y: "y = ((svc', m'), r')" by (metis surj_pair)
  from assms(1) x obtain w where w: "\<forall>c\<in>set w. word_char c" "svc = w @ ''Service''"
      and m: "\<forall>c\<in>set m. word_char c" and s: "s = ''this.'' @ svc @ ''.'' @ m @ ''('' @ r"
    using service_rx_set [of svc m r s] by blast
  from assms(2) y obtain w' where w': "\<forall>c\<in>set w'. word_char c" "svc' = w' @ ''Service''"
      and m': "\<forall>c\<in>set m'. word_char c" and s': "s = ''this.'' @ svc' @ ''.'' @ m' @ ''('' @ r'"
    using service_rx_set [of svc' m' r' s] by blast
  have a: "\<forall>c\<in>set svc. word_char c" using w word_Service by auto
  have a': "\<forall>c\<in>set svc'. word_char c" using w' word_Service by auto
  from s s' have "''this.'' @ svc @ ''.'' @ m @ ''('' @ r = ''this.'' @ svc' @ ''.'' @ m' @ ''('' @ r'"
    by simp
  from service_shape_unique [OF this a a' m m'] show ?thesis using x y by simp
qed

lemma first_match_service:
  "first_match service_rx s = Some ((svc, m), r) \<longleftrightarrow>
     (\<exists>w. w \<noteq> [] \<and> (\<forall>c\<in>set w. word_char c) \<and> svc = w @ ''Service'') \<and>
     m \<noteq> [] \<and> (\<forall>c\<in>set m. word_char c) \<and>
     s = ''this.'' @ svc @ ''.'' @ m @ ''('' @ r"
proof
  assume "first_match service_rx s = Some ((svc, m), r)"
  then have "((svc, m), r) \<in> set (service_rx s)" by (rule first_match_mem)
  then show "(\<exists>w. w \<noteq> [] \<and> (\<forall>c\<in>set w. word_char c) \<and> svc = w @ ''Service'') \<and>
     m \<noteq> [] \<and> (\<forall>c\<in>set m. word_char c) \<and>
     s = ''this.'' @ svc @ ''.'' @ m @ ''('' @ r"
    using service_rx_set by blast
next
  assume "(\<exists>w. w \<noteq> [] \<and> (\<forall>c\<in>set w. word_char c) \<and> svc = w @ ''Service'') \<and>
     m \<noteq> [] \<and> (\<forall>c\<in>set m. word_char c) \<and>
     s = ''this.'' @ svc @ ''.'' @ m @ ''('' @ r"
  then have mem: "((svc, m), r) \<in> set (service_rx s)" using service_rx_set by blast
  show "first_match service_rx s = Some ((svc, m), r)"
  proof (rule first_match_unique)
    show "((svc, m), r) \<in> set (service_rx s)" by (rule mem)
  next
    fix y assume "y \<in> set (service_rx s)"
    then show "y = ((svc, m), r)" by (rule service_rx_unique [OF mem])
  qed
qed

subsection \<open>The scan over a text made of two parts\<close>

lemma findall_None: "first_match rx (c # t) = None \<Longrightarrow> findall rx (c # t) = findall rx t"
  by (subst findall.simps) simp

lemma findall_Nil: "first_match rx [] = None \<Longrightarrow> findall rx [] = []"
  by (subst findall.simps) simp

lemma findall_Some:
  "first_match rx s = Some (g, r) \<Longrightarrow> length r < length s \<Longrightarrow> findall rx s = g # findall rx r"
  by (subst findall.simps) simp

lemma findall_Some_stuck:
  "first_match rx (c # t) = Some (g, r) \<Longrightarrow> \<not> length r < length (c # t) \<Longrightarrow>
     findall rx (c # t) = g # findall rx t"
  by (subst findall.simps) simp

lemma findall_append_aux:
  assumes sfx: "\<And>t g r. first_match rx t = Some (g, r) \<Longrightarrow> \<exists>m. t = m @ r"
      and cross: "\<And>u t g r. pre = u @ t \<Longrightarrow> t \<noteq> [] \<Longrightarrow> first_match rx (t @ s) = Some (g, r) \<Longrightarrow>
                    \<exists>r'. r = r' @ s \<and> first_match rx t = Some (g, r')"
      and none: "\<And>u t. pre = u @ t \<Longrightarrow> t \<noteq> [] \<Longrightarrow> first_match rx (t @ s) = None \<Longrightarrow>
                    first_match rx t = None"
      and emp: "first_match rx [] = None"
  shows "\<exists>u. pre = u @ t \<Longrightarrow> findall rx (t @ s) = findall rx t @ findall rx s"
proof (induction t rule: length_induct)
  case (1 t)
  show ?case
  proof (cases t)
    case Nil
    then show ?thesis using findall_Nil [OF emp] by simp
  next
    case (Cons c t0)
    from "1.prems" obtain u where u: "pre = u @ t" by blast
    have ne: "t \<noteq> []" using Cons by simp
    have u0: "\<exists>u. pre = u @ t0" using u Cons by (metis append.assoc append_Cons append_Nil)
    have ih0: "findall rx (t0 @ s) = findall rx t0 @ findall rx s"
      using "1.IH" u0 Cons by simp
    show ?thesis
    proof (cases "first_match rx (t @ s)")
      case None
      then have n: "first_match rx t = None" using none [OF u ne] by simp
      have "findall rx (t @ s) = findall rx (t0 @ s)"
        using None Cons findall_None [of rx c "t0 @ s"] by simp
      moreover have "findall rx t = findall rx t0"
        using n Cons findall_None [of rx c t0] by simp
      ultimately show ?thesis using ih0 by simp
    next
      case (Some x)
      obtain g r where x: "x = (g, r)" by (cases x)
      from cross [OF u ne] Some x obtain r' where r: "r = r' @ s"
          and fm: "first_match rx t = Some (g, r')" by blast
      from sfx [OF fm] obtain m where m: "t = m @ r'" by blast
      show ?thesis
      proof (cases "length r' < length t")
        case True
        have "\<exists>u. pre = u @ r'" using u m by (metis append.assoc)
        then have ih: "findall rx (r' @ s) = findall rx r' @ findall rx s"
          using "1.IH" True by simp
        have "findall rx (t @ s) = g # findall rx (r' @ s)"
          using Some x r True by (intro findall_Some) simp_all
        moreover have "findall rx t = g # findall rx r'"
          using fm True by (rule findall_Some)
        ultimately show ?thesis using ih by simp
      next
        case False
        have "findall rx (t @ s) = g # findall rx (t0 @ s)"
          using Some x r False Cons findall_Some_stuck [of rx c "t0 @ s" g r] by simp
        moreover have "findall rx t = g # findall rx t0"
          using fm False Cons findall_Some_stuck [of rx c t0 g r'] by simp
        ultimately show ?thesis using ih0 by simp
      qed
    qed
  qed
qed

lemma findall_append:
  assumes "\<And>t g r. first_match rx t = Some (g, r) \<Longrightarrow> \<exists>m. t = m @ r"
      and "\<And>u t g r. pre = u @ t \<Longrightarrow> t \<noteq> [] \<Longrightarrow> first_match rx (t @ s) = Some (g, r) \<Longrightarrow>
                    \<exists>r'. r = r' @ s \<and> first_match rx t = Some (g, r')"
      and "\<And>u t. pre = u @ t \<Longrightarrow> t \<noteq> [] \<Longrightarrow> first_match rx (t @ s) = None \<Longrightarrow>
                    first_match rx t = None"
      and "first_match rx [] = None"
  shows "findall rx (pre @ s) = findall rx pre @ findall rx s"
  by (rule findall_append_aux [OF assms]) auto

lemma list_all_upt_less: "list_all P [0..<n] \<Longrightarrow> \<forall>i<n. P i"
  by (simp add: list_all_iff)

subsection \<open>Service calls\<close>

lemma split_unique_last:
  assumes "a @ c # r = a' @ c' # r'"
      and "\<forall>x\<in>set r. P x" and "\<forall>x\<in>set r'. P x" and "\<not> P c" and "\<not> P c'"
  shows "a = a' \<and> c = c' \<and> r = r'"
proof -
  from assms(1) have "rev (a @ c # r) = rev (a' @ c' # r')" by simp
  then have "rev r @ c # rev a = rev r' @ c' # rev a'" by simp
  from split_unique [OF this, of P] assms(2-5) show ?thesis by simp
qed

lemma service_first_match_extend:
  assumes "first_match service_rx t = Some (g, r)"
  shows "first_match service_rx (t @ x) = Some (g, r @ x)"
proof -
  obtain svc m where g: "g = (svc, m)" by (cases g)
  from assms show ?thesis unfolding g first_match_service by auto
qed

lemma service_first_match_suffix:
  assumes "first_match service_rx t = Some (g, r)"
  shows "\<exists>m. t = m @ r"
proof -
  obtain svc m where g: "g = (svc, m)" by (cases g)
  from assms have "t = (''this.'' @ svc @ ''.'' @ m @ ''('') @ r"
    unfolding g first_match_service by simp
  then show ?thesis by blast
qed

lemma service_first_match_shorter:
  assumes "first_match service_rx t = Some (g, r)"
  shows "length r < length t"
proof -
  obtain svc m where g: "g = (svc, m)" by (cases g)
  from assms have "t = (''this.'' @ svc @ ''.'' @ m @ ''('') @ r"
    unfolding g first_match_service by simp
  then have "length t = length (''this.'' @ svc @ ''.'' @ m @ ''('') + length r"
    by (metis length_append)
  then show ?thesis by simp
qed

lemma service_rx_Nil: "first_match service_rx [] = None"
  by (simp add: first_match_None service_rx_def lit_def startswith_def)

lemma service_none_extend:
  assumes "first_match service_rx (t @ x) = None"
  shows "first_match service_rx t = None"
proof (cases "first_match service_rx t")
  case None
  then show ?thesis .
next
  case (Some y)
  obtain g r where "y = (g, r)" by (cases y)
  then show ?thesis using service_first_match_extend [of t g r x] Some assms by simp
qed

lemma service_cross:
  assumes ne: "t \<noteq> []"
      and fm: "first_match service_rx (t @ ''this.fooService.bar('' @ post) = Some (g, r)"
  shows "\<exists>r'. r = r' @ ''this.fooService.bar('' @ post \<and> first_match service_rx t = Some (g, r')"
proof -
  obtain svc m where g: "g = (svc, m)" by (cases g)
  from fm obtain w where w: "w \<noteq> []" "\<forall>c\<in>set w. word_char c" "svc = w @ ''Service''"
      and m: "m \<noteq> []" "\<forall>c\<in>set m. word_char c"
      and eq: "t @ ''this.fooService.bar('' @ post = ''this.'' @ svc @ ''.'' @ m @ ''('' @ r"
    unfolding g first_match_service by blast
  have svcw: "\<forall>c\<in>set svc. word_char c" using w word_Service by auto
  define M where "M = ''this.'' @ svc @ ''.'' @ m"
  have Mnp: "\<forall>c\<in>set M. c \<noteq> CHR ''(''"
    using svcw m(2) not_word_paren unfolding M_def by auto
  have eq': "t @ ''this.fooService.bar('' @ post = M @ CHR ''('' # r"
    using eq unfolding M_def by simp
  show ?thesis
  proof (cases "CHR ''('' \<in> set t")
    case True
    then obtain a b where ab: "t = a @ CHR ''('' # b" "CHR ''('' \<notin> set a"
      by (meson split_list_first)
    have "a @ CHR ''('' # (b @ ''this.fooService.bar('' @ post) = M @ CHR ''('' # r"
      using eq' ab(1) by simp
    from split_unique [OF this, of "\<lambda>c. c \<noteq> CHR ''(''"] ab(2) Mnp
    have "a = M" "r = b @ ''this.fooService.bar('' @ post" by auto
    then have "t = ''this.'' @ svc @ ''.'' @ m @ ''('' @ b" using ab(1) M_def by simp
    then have "first_match service_rx t = Some ((svc, m), b)"
      unfolding first_match_service using w m by blast
    then show ?thesis using \<open>r = b @ ''this.fooService.bar('' @ post\<close> g by blast
  next
    case False
    have "(t @ ''this.fooService.bar'') @ CHR ''('' # post = M @ CHR ''('' # r"
      using eq' by simp
    from split_unique [OF this, of "\<lambda>c. c \<noteq> CHR ''(''"] False Mnp
    have tM: "t @ ''this.fooService.bar'' = M" by (auto simp: word_char_def)
    then have "(t @ ''this.fooService'') @ CHR ''.'' # ''bar'' = (''this.'' @ svc) @ CHR ''.'' # m"
      unfolding M_def by simp
    from split_unique_last [OF this, of word_char] m(2) not_word_dot
    have "t @ ''this.fooService'' = ''this.'' @ svc" by (auto simp: word_char_def)
    then have "(t @ ''this'') @ CHR ''.'' # ''fooService'' = ''this'' @ CHR ''.'' # svc"
      by simp
    from split_unique_last [OF this, of word_char] svcw not_word_dot
    have "t @ ''this'' = ''this''" by (auto simp: word_char_def)
    then have "t = []" by simp
    then show ?thesis using ne by simp
  qed
qed

lemma service_first_foo:
  "first_match service_rx (''this.fooService.bar('' @ post) = Some ((''fooService'', ''bar''), post)"
proof -
  have "\<exists>w. w \<noteq> [] \<and> (\<forall>c\<in>set w. word_char c) \<and> ''fooService'' = w @ ''Service''"
    by (rule exI [of _ "''foo''"]) (simp add: word_char_def)
  moreover have "\<forall>c\<in>set ''bar''. word_char c" by (simp add: word_char_def)
  ultimately show ?thesis unfolding first_match_service by simp
qed

lemma findall_service_foo:
  "findall service_rx (pre @ ''this.fooService.bar('' @ post) =
     findall service_rx pre @ (''fooService'', ''bar'') # findall service_rx post"
proof -
  have "findall service_rx (pre @ ''this.fooService.bar('' @ post) =
          findall service_rx pre @ findall service_rx (''this.fooService.bar('' @ post)"
  proof (rule findall_append)
    show "\<And>t g r. first_match service_rx t = Some (g, r) \<Longrightarrow> \<exists>m. t = m @ r"
      by (rule service_first_match_suffix)
    show "\<And>u t g r. pre = u @ t \<Longrightarrow> t \<noteq> [] \<Longrightarrow>
            first_match service_rx (t @ ''this.fooService.bar('' @ post) = Some (g, r) \<Longrightarrow>
            \<exists>r'. r = r' @ ''this.fooService.bar('' @ post \<and> first_match service_rx t = Some (g, r')"
      by (rule service_cross)
    show "\<And>u t. pre = u @ t \<Longrightarrow> t \<noteq> [] \<Longrightarrow>
            first_match service_rx (t @ ''this.fooService.bar('' @ post) = None \<Longrightarrow>
            first_match service_rx t = None"
      by (rule service_none_extend)
    show "first_match service_rx [] = None" by (rule service_rx_Nil)
  qed
  moreover have "findall service_rx (''this.fooService.bar('' @ post) =
      (''fooService'', ''bar'') # findall service_rx post"
    by (rule findall_Some [OF service_first_foo]) simp
  ultimately show ?thesis by simp
qed

subsection \<open>The extractor as three scans\<close>

lemma foldl_snoc_pair:
  "foldl (\<lambda>ps (a, b). ps @ [f a b]) acc xs = acc @ map (\<lambda>(a, b). f a b) xs"
  by (induction xs arbitrary: acc) (auto split: prod.splits)

lemma foldl_snoc_if:
  "foldl (\<lambda>ps x. if P x then ps @ [f x] else ps) acc xs = acc @ map f (filter P xs)"
  by (induction xs arbitrary: acc) auto

lemma extract_code_patterns_eq:
  "extract_code_patterns content =
     map (\<lambda>(svc, m). ServiceMethod svc m (''this.'' @ svc @ ''.'' @ m @ ''()''))
       (findall service_rx content) @
     map (\<lambda>(imported, pth). Import (map strip (split_on CHR '','' imported)) pth)
       (findall import_rx content) @
     map (\<lambda>comp. Component ''missing_standalone'' (take 50 comp @ ''...''))
       (filter (\<lambda>comp. \<not> contains ''standalone: true'' comp) (findall component_rx content))"
  unfolding extract_code_patterns_def Let_def foldl_snoc_pair foldl_snoc_if
  by simp

lemma filter_service_extract:
  "filter is_ServiceMethod (extract_code_patterns content) =
     map (\<lambda>(svc, m). ServiceMethod svc m (''this.'' @ svc @ ''.'' @ m @ ''()''))
       (findall service_rx content)"
  unfolding extract_code_patterns_eq
  by (simp add: filter_map comp_def case_prod_unfold)

lemma filter_import_extract:
  "filter is_Import (extract_code_patterns content) =
     map (\<lambda>(imported, pth). Import (map strip (split_on CHR '','' imported)) pth)
       (findall import_rx content)"
  unfolding extract_code_patterns_eq
  by (simp add: filter_map comp_def case_prod_unfold)

lemma filter_component_extract:
  "filter is_Component (extract_code_patterns content) =
     map (\<lambda>comp. Component ''missing_standalone'' (take 50 comp @ ''...''))
       (filter (\<lambda>comp. \<not> contains ''standalone: true'' comp) (findall component_rx content))"
  unfolding extract_code_patterns_eq
  by (simp add: filter_map comp_def case_prod_unfold)

lemma findall_mem_match:
  assumes sfx: "\<And>t g r. first_match rx t = Some (g, r) \<Longrightarrow> \<exists>m. t = m @ r"
  shows "g \<in> set (findall rx s) \<Longrightarrow> \<exists>u t r. s = u @ t \<and> first_match rx t = Some (g, r)"
proof (induction s rule: length_induct)
  case (1 s)
  have ih: "\<exists>u t r. ys = u @ t \<and> first_match rx t = Some (g, r)"
    if "length ys < length s" "g \<in> set (findall rx ys)" for ys
    using "1.IH" that by blast
  have lift: "\<exists>u t r. s = u @ t \<and> first_match rx t = Some (g, r)"
    if "s = m @ ys" "\<exists>u t r. ys = u @ t \<and> first_match rx t = Some (g, r)" for m ys
  proof -
    from that(2) obtain u t r where "ys = u @ t" "first_match rx t = Some (g, r)" by blast
    then have "s = (m @ u) @ t \<and> first_match rx t = Some (g, r)" using that(1) by simp
    then show ?thesis by blast
  qed
  show ?case
  proof (cases "first_match rx s")
    case None
    show ?thesis
    proof (cases s)
      case Nil
      then have "findall rx s = []" using None findall_Nil [of rx] by simp
      then show ?thesis using "1.prems" by simp
    next
      case (Cons c t)
      then have "findall rx s = findall rx t" using None findall_None [of rx c t] by simp
      then have "g \<in> set (findall rx t)" using "1.prems" by simp
      then have "\<exists>u t' r. t = u @ t' \<and> first_match rx t' = Some (g, r)"
        using ih [of t] Cons by simp
      then show ?thesis using lift [of "[c]" t] Cons by simp
    qed
  next
    case (Some x)
    obtain g' r' where x: "x = (g', r')" by (cases x)
    have fm: "first_match rx s = Some (g', r')" using Some x by simp
    from sfx [OF fm] obtain m where m: "s = m @ r'" by blast
    have here: "\<exists>u t r. s = u @ t \<and> first_match rx t = Some (g, r)" if "g = g'"
    proof -
      have "s = [] @ s \<and> first_match rx s = Some (g, r')" using fm that by simp
      then show ?thesis by blast
    qed
    show ?thesis
    proof (cases "length r' < length s")
      case True
      have "findall rx s = g' # findall rx r'" using fm True by (rule findall_Some)
      then have "g = g' \<or> g \<in> set (findall rx r')" using "1.prems" by simp
      then show ?thesis
      proof
        assume "g = g'"
        then show ?thesis by (rule here)
      next
        assume "g \<in> set (findall rx r')"
        then have "\<exists>u t r. r' = u @ t \<and> first_match rx t = Some (g, r)"
          using ih [of r'] True by simp
        then show ?thesis using lift [of m r'] m by simp
      qed
    next
      case False
      show ?thesis
      proof (cases s)
        case Nil
        then have "findall rx s = [g']" using fm by (subst findall.simps) simp
        then have "g = g'" using "1.prems" by simp
        then show ?thesis by (rule here)
      next
        case (Cons c t)
        then have "findall rx s = g' # findall rx t"
          using fm False findall_Some_stuck [of rx c t g' r'] by simp
        then have "g = g' \<or> g \<in> set (findall rx t)" using "1.prems" by simp
        then show ?thesis
        proof
          assume "g = g'"
          then show ?thesis by (rule here)
        next
          assume "g \<in> set (findall rx t)"
          then have "\<exists>u t' r. t = u @ t' \<and> first_match rx t' = Some (g, r)"
            using ih [of t] Cons by simp
          then show ?thesis using lift [of "[c]" t] Cons by simp
        qed
      qed
    qed
  qed
qed

lemma findall_service_contains:
  assumes "(svc, m) \<in> set (findall service_rx content)"
  shows "contains (''this.'' @ svc @ ''.'' @ m @ ''('') content"
proof -
  have "\<exists>u t r. content = u @ t \<and> first_match service_rx t = Some ((svc, m), r)"
  proof (rule findall_mem_match [where rx = service_rx and g = "(svc, m)" and s = content])
    show "\<And>t g r. first_match service_rx t = Some (g, r) \<Longrightarrow> \<exists>m. t = m @ r"
      by (rule service_first_match_suffix)
    show "(svc, m) \<in> set (findall service_rx content)" by (rule assms)
  qed
  then obtain u t r where ut: "content = u @ t"
      and fm: "first_match service_rx t = Some ((svc, m), r)"
    by blast
  have t: "t = ''this.'' @ svc @ ''.'' @ m @ ''('' @ r"
    using fm first_match_service [of t svc m r] by blast
  have "content = u @ (''this.'' @ svc @ ''.'' @ m @ ''('') @ r"
    unfolding ut t by simp
  then show ?thesis
    using contains_iff [of "''this.'' @ svc @ ''.'' @ m @ ''(''" content] by blast
qed

text \<open>
  Claim C1, as the code has it. Every service call record that the extractor yields has
  as its \<^verbatim>\<open>full\<close> field the text \<^verbatim>\<open>this.<service>.<method>()\<close>, that is the matched text
  \<^verbatim>\<open>this.<service>.<method>(\<close> (which occurs in the content) with the closing parenthesis
  added. For every content that contains \<^verbatim>\<open>this.fooService.bar(\<close>, the service call
  records are those of the text before the occurrence, then exactly one record with
  service \<^verbatim>\<open>fooService\<close>, method \<^verbatim>\<open>bar\<close> and full \<^verbatim>\<open>this.fooService.bar()\<close>, then those of
  the text after it. The checker is asked about the \<^verbatim>\<open>full\<close> field: what the loop
  collects for a service call record depends on the checker only through its answer
  on that text.
\<close>

theorem service_call_records:
  "(\<forall>p\<in>set (extract_code_patterns content). is_ServiceMethod p \<longrightarrow>
      full p = ''this.'' @ service p @ ''.'' @ method_name p @ ''()'' \<and>
      contains (''this.'' @ service p @ ''.'' @ method_name p @ ''('') content) \<and>
   filter is_ServiceMethod (extract_code_patterns (pre @ ''this.fooService.bar('' @ post)) =
     filter is_ServiceMethod (extract_code_patterns pre) @
     ServiceMethod ''fooService'' ''bar'' ''this.fooService.bar()'' #
     filter is_ServiceMethod (extract_code_patterns post) \<and>
   (check n fl = check' n fl \<longrightarrow>
      collect_issues check n [ServiceMethod svc m fl] = collect_issues check' n [ServiceMethod svc m fl])"
proof (intro conjI ballI impI)
  fix p assume p: "p \<in> set (extract_code_patterns content)" "is_ServiceMethod p"
  then have "p \<in> set (filter is_ServiceMethod (extract_code_patterns content))" by simp
  then obtain svc m where sm: "(svc, m) \<in> set (findall service_rx content)"
      and pe: "p = ServiceMethod svc m (''this.'' @ svc @ ''.'' @ m @ ''()'')"
    unfolding filter_service_extract by auto
  show "full p = ''this.'' @ service p @ ''.'' @ method_name p @ ''()''"
    using pe by simp
  show "contains (''this.'' @ service p @ ''.'' @ method_name p @ ''('') content"
    using findall_service_contains [OF sm] pe by simp
next
  show "filter is_ServiceMethod (extract_code_patterns (pre @ ''this.fooService.bar('' @ post)) =
     filter is_ServiceMethod (extract_code_patterns pre) @
     ServiceMethod ''fooService'' ''bar'' ''this.fooService.bar()'' #
     filter is_ServiceMethod (extract_code_patterns post)"
    unfolding filter_service_extract findall_service_foo by simp
next
  assume "check n fl = check' n fl"
  then show "collect_issues check n [ServiceMethod svc m fl] = collect_issues check' n [ServiceMethod svc m fl]"
    by (simp split: prod.splits sum.splits)
qed

theorem service_call_records_witness:
  "filter is_ServiceMethod (extract_code_patterns (''x = '' @ ''this.fooService.bar('' @ ''1)'')) =
     [ServiceMethod ''fooService'' ''bar'' ''this.fooService.bar()'']"
proof -
  have a: "extract_code_patterns ''x = '' = []" by code_simp
  have b: "extract_code_patterns ''1)'' = []" by code_simp
  show ?thesis
    using service_call_records [where pre = "''x = ''" and post = "''1)''", THEN conjunct2, THEN conjunct1]
    by (simp only: a b filter.simps append_Nil)
qed

text \<open>
  The claim as the specification words it gives the \<^verbatim>\<open>full\<close> field without the closing
  parenthesis. On the content \<^verbatim>\<open>this.fooService.bar(\<close> the extractor yields one record,
  and its \<^verbatim>\<open>full\<close> field is \<^verbatim>\<open>this.fooService.bar()\<close>.
\<close>

theorem service_call_full_counterexample:
  "extract_code_patterns ''this.fooService.bar('' =
     [ServiceMethod ''fooService'' ''bar'' ''this.fooService.bar()''] \<and>
   ServiceMethod ''fooService'' ''bar'' ''this.fooService.bar(''
     \<notin> set (extract_code_patterns ''this.fooService.bar('')"
  by code_simp

subsection \<open>Component decorators\<close>

lemma component_rx_set:
  "(blk, r) \<in> set (component_rx s) \<longleftrightarrow>
     (\<exists>body. body \<noteq> [] \<and> (\<forall>c\<in>set body. not_rbrace c) \<and>
        blk = ''@Component({'' @ body @ ''})'' \<and> s = blk @ r)"
  unfolding component_rx_def
  by (simp add: bex_lit bex_many1 image_iff) auto

lemma component_rx_unique:
  assumes "x \<in> set (component_rx s)" and "y \<in> set (component_rx s)"
  shows "y = x"
proof -
  obtain blk r where x: "x = (blk, r)" by (cases x)
  obtain blk' r' where y: "y = (blk', r')" by (cases y)
  from assms(1) obtain body where b: "\<forall>c\<in>set body. not_rbrace c"
      "blk = ''@Component({'' @ body @ ''})''" "s = blk @ r"
    using component_rx_set [of blk r s] x by blast
  from assms(2) obtain body' where b': "\<forall>c\<in>set body'. not_rbrace c"
      "blk' = ''@Component({'' @ body' @ ''})''" "s = blk' @ r'"
    using component_rx_set [of blk' r' s] y by blast
  have "body @ CHR ''}'' # (CHR '')'' # r) = body' @ CHR ''}'' # (CHR '')'' # r')"
    using b(2,3) b'(2,3) by simp
  from split_unique [OF this, of not_rbrace] b(1) b'(1)
  have "body = body'" "r = r'" by (simp_all add: not_rbrace_def)
  then show ?thesis using x y b(2) b'(2) by simp
qed

lemma first_match_component:
  "first_match component_rx s = Some (blk, r) \<longleftrightarrow>
     (\<exists>body. body \<noteq> [] \<and> (\<forall>c\<in>set body. not_rbrace c) \<and>
        blk = ''@Component({'' @ body @ ''})'' \<and> s = blk @ r)"
proof
  assume "first_match component_rx s = Some (blk, r)"
  then have "(blk, r) \<in> set (component_rx s)" by (rule first_match_mem)
  then show "\<exists>body. body \<noteq> [] \<and> (\<forall>c\<in>set body. not_rbrace c) \<and>
        blk = ''@Component({'' @ body @ ''})'' \<and> s = blk @ r"
    using component_rx_set [of blk r s] by blast
next
  assume "\<exists>body. body \<noteq> [] \<and> (\<forall>c\<in>set body. not_rbrace c) \<and>
        blk = ''@Component({'' @ body @ ''})'' \<and> s = blk @ r"
  then have mem: "(blk, r) \<in> set (component_rx s)"
    using component_rx_set [of blk r s] by blast
  show "first_match component_rx s = Some (blk, r)"
  proof (rule first_match_unique)
    show "(blk, r) \<in> set (component_rx s)" by (rule mem)
  next
    fix y assume "y \<in> set (component_rx s)"
    then show "y = (blk, r)" by (rule component_rx_unique [OF mem])
  qed
qed

lemma component_first_match_suffix:
  assumes "first_match component_rx t = Some (g, r)"
  shows "\<exists>m. t = m @ r"
  using assms first_match_component [of t g r] by blast

lemma findall_component_shape:
  assumes "blk \<in> set (findall component_rx content)"
  shows "(\<exists>body. body \<noteq> [] \<and> CHR ''}'' \<notin> set body \<and> blk = ''@Component({'' @ body @ ''})'') \<and>
         contains blk content"
proof -
  have "\<exists>u t r. content = u @ t \<and> first_match component_rx t = Some (blk, r)"
  proof (rule findall_mem_match [where rx = component_rx and g = blk and s = content])
    show "\<And>t g r. first_match component_rx t = Some (g, r) \<Longrightarrow> \<exists>m. t = m @ r"
      by (rule component_first_match_suffix)
    show "blk \<in> set (findall component_rx content)" by (rule assms)
  qed
  then obtain u t r where ut: "content = u @ t"
      and fm: "first_match component_rx t = Some (blk, r)"
    by blast
  from fm obtain body where b: "body \<noteq> []" "\<forall>c\<in>set body. not_rbrace c"
      "blk = ''@Component({'' @ body @ ''})''" "t = blk @ r"
    using first_match_component [of t blk r] by blast
  have "CHR ''}'' \<notin> set body" using b(2) by (auto simp: not_rbrace_def)
  moreover have "content = u @ blk @ r" using ut b(4) by simp
  then have "contains blk content" using contains_iff [of blk content] by blast
  ultimately show ?thesis using b(1,3) by blast
qed

lemma findall_component_head:
  assumes "body \<noteq> []" and "CHR ''}'' \<notin> set body"
  shows "findall component_rx ((''@Component({'' @ body @ ''})'') @ rest) =
           (''@Component({'' @ body @ ''})'') # findall component_rx rest"
proof -
  have "\<forall>c\<in>set body. not_rbrace c" using assms(2) by (auto simp: not_rbrace_def)
  then have "first_match component_rx ((''@Component({'' @ body @ ''})'') @ rest) =
      Some (''@Component({'' @ body @ ''})'', rest)"
    using assms(1) first_match_component [of "(''@Component({'' @ body @ ''})'') @ rest"
        "''@Component({'' @ body @ ''})''" rest]
    by blast
  then show ?thesis by (rule findall_Some) simp
qed

lemma component_rx_Nil: "first_match component_rx [] = None"
  by (simp add: first_match_None component_rx_def lit_def startswith_def)

lemma component_first_match_extend:
  assumes "first_match component_rx t = Some (g, r)"
  shows "first_match component_rx (t @ x) = Some (g, r @ x)"
  using assms first_match_component [of t g r] first_match_component [of "t @ x" g "r @ x"]
  by auto

lemma component_none_extend:
  assumes "first_match component_rx (t @ x) = None"
  shows "first_match component_rx t = None"
proof (cases "first_match component_rx t")
  case None
  then show ?thesis .
next
  case (Some y)
  obtain g r where "y = (g, r)" by (cases y)
  then show ?thesis using component_first_match_extend [of t g r x] Some assms by simp
qed

lemma component_cross:
  assumes fm: "first_match component_rx (t @ s) = Some (g, r)"
      and len: "length s \<le> length r"
  shows "\<exists>r'. r = r' @ s \<and> first_match component_rx t = Some (g, r')"
proof -
  from fm obtain body where b: "body \<noteq> []" "\<forall>c\<in>set body. not_rbrace c"
      "g = ''@Component({'' @ body @ ''})''" "t @ s = g @ r"
    using first_match_component [of "t @ s" g r] by blast
  have "\<exists>r'. t = g @ r' \<and> r = r' @ s"
  proof -
    from b(4) consider us where "t = g @ us" "us @ s = r" | us where "t @ us = g" "s = us @ r"
      by (auto simp: append_eq_append_conv2)
    then show ?thesis
    proof cases
      case 1
      then show ?thesis by blast
    next
      case 2
      then have "us = []" using len by simp
      then have "t = g @ [] \<and> r = [] @ s" using 2 by simp
      then show ?thesis by blast
    qed
  qed
  then obtain r' where r': "t = g @ r'" "r = r' @ s" by blast
  have "first_match component_rx t = Some (g, r')"
    using first_match_component [of t g r'] b(1,2,3) r'(1) by blast
  then show ?thesis using r'(2) by blast
qed

lemma findall_component_block:
  assumes body: "body \<noteq> []" "CHR ''}'' \<notin> set body"
      and clear: "\<forall>i<length pre.
             (case first_match component_rx
                     (drop i pre @ (''@Component({'' @ body @ ''})'') @ post) of
                None \<Rightarrow> True
              | Some (g, r) \<Rightarrow> length ((''@Component({'' @ body @ ''})'') @ post) \<le> length r)"
  shows "findall component_rx (pre @ (''@Component({'' @ body @ ''})'') @ post) =
           findall component_rx pre @
           (''@Component({'' @ body @ ''})'') # findall component_rx post"
proof -
  have "findall component_rx (pre @ (''@Component({'' @ body @ ''})'') @ post) =
          findall component_rx pre @
          findall component_rx ((''@Component({'' @ body @ ''})'') @ post)"
  proof (rule findall_append [where rx = component_rx and pre = pre
        and s = "(''@Component({'' @ body @ ''})'') @ post"])
    show "\<And>t g r. first_match component_rx t = Some (g, r) \<Longrightarrow> \<exists>m. t = m @ r"
      by (rule component_first_match_suffix)
    show "first_match component_rx [] = None" by (rule component_rx_Nil)
    show "\<And>u t. pre = u @ t \<Longrightarrow> t \<noteq> [] \<Longrightarrow>
            first_match component_rx (t @ (''@Component({'' @ body @ ''})'') @ post) = None \<Longrightarrow>
            first_match component_rx t = None"
      by (rule component_none_extend)
    fix u t g r
    assume pre: "pre = u @ t" and ne: "t \<noteq> []"
      and fm: "first_match component_rx (t @ (''@Component({'' @ body @ ''})'') @ post) = Some (g, r)"
    have i: "length u < length pre" using pre ne by simp
    have d: "drop (length u) pre = t" using pre by simp
    from clear [rule_format, OF i]
    have "length ((''@Component({'' @ body @ ''})'') @ post) \<le> length r"
      unfolding d using fm by simp
    with fm show "\<exists>r'. r = r' @ (''@Component({'' @ body @ ''})'') @ post \<and>
        first_match component_rx t = Some (g, r')"
      by (rule component_cross)
  qed
  then show ?thesis
    using findall_component_head [OF body, of post] by simp
qed

text \<open>
  Claim C2, as the code has it. A component decorator block is the text \<^verbatim>\<open>@Component({\<close>,
  a non-empty body without a closing brace (line breaks included), and \<^verbatim>\<open>})\<close>. Let the
  content hold such a block, with the text \<open>pre\<close> before it and \<open>post\<close> after it, and let
  no component match that starts in \<open>pre\<close> reach into the block (every match found at a
  position of \<open>pre\<close> leaves at least the block and \<open>post\<close> unread). Then the
  missing-standalone records of the content are those of \<open>pre\<close>, then exactly one record
  for the block when \<^verbatim>\<open>standalone: true\<close> does not occur in it (carrying the first 50
  characters of the block followed by \<^verbatim>\<open>...\<close>) and none when it occurs, then those of
  \<open>post\<close>. For any content, the missing-standalone records are, in order, one for each
  block the scan finds in which \<^verbatim>\<open>standalone: true\<close> does not occur, and every block the
  scan finds has the shape above and occurs in the content.
\<close>

theorem component_records:
  assumes "body \<noteq> []" and "CHR ''}'' \<notin> set body"
      and "\<forall>i<length pre.
             (case first_match component_rx
                     (drop i pre @ (''@Component({'' @ body @ ''})'') @ post) of
                None \<Rightarrow> True
              | Some (g, r) \<Rightarrow> length ((''@Component({'' @ body @ ''})'') @ post) \<le> length r)"
  shows "filter is_Component
           (extract_code_patterns (pre @ (''@Component({'' @ body @ ''})'') @ post)) =
           filter is_Component (extract_code_patterns pre) @
           (if contains ''standalone: true'' (''@Component({'' @ body @ ''})'') then []
            else [Component ''missing_standalone''
                    (take 50 (''@Component({'' @ body @ ''})'') @ ''...'')]) @
           filter is_Component (extract_code_patterns post) \<and>
         filter is_Component (extract_code_patterns content) =
           map (\<lambda>block. Component ''missing_standalone'' (take 50 block @ ''...''))
             (filter (\<lambda>block. \<not> contains ''standalone: true'' block)
                (findall component_rx content)) \<and>
         (\<forall>block\<in>set (findall component_rx content).
            (\<exists>b. b \<noteq> [] \<and> CHR ''}'' \<notin> set b \<and> block = ''@Component({'' @ b @ ''})'') \<and>
            contains block content)"
proof -
  have a: "filter is_Component
           (extract_code_patterns (pre @ (''@Component({'' @ body @ ''})'') @ post)) =
           filter is_Component (extract_code_patterns pre) @
           (if contains ''standalone: true'' (''@Component({'' @ body @ ''})'') then []
            else [Component ''missing_standalone''
                    (take 50 (''@Component({'' @ body @ ''})'') @ ''...'')]) @
           filter is_Component (extract_code_patterns post)"
    unfolding filter_component_extract findall_component_block [OF assms]
    by simp
  have b: "filter is_Component (extract_code_patterns content) =
           map (\<lambda>block. Component ''missing_standalone'' (take 50 block @ ''...''))
             (filter (\<lambda>block. \<not> contains ''standalone: true'' block)
                (findall component_rx content))"
    by (rule filter_component_extract)
  have c: "\<forall>block\<in>set (findall component_rx content).
            (\<exists>b. b \<noteq> [] \<and> CHR ''}'' \<notin> set b \<and> block = ''@Component({'' @ b @ ''})'') \<and>
            contains block content"
  proof (rule ballI)
    fix block assume "block \<in> set (findall component_rx content)"
    then show "(\<exists>b. b \<noteq> [] \<and> CHR ''}'' \<notin> set b \<and> block = ''@Component({'' @ b @ ''})'') \<and>
            contains block content"
      by (rule findall_component_shape)
  qed
  from a b c show ?thesis by (intro conjI)
qed

theorem component_records_witness:
  "filter is_Component
     (extract_code_patterns
        (''@Component({standalone: true}) class A {} '' @
         (''@Component({'' @ ''selector: 1'' @ ''})'') @ '' class B {}'')) =
     [Component ''missing_standalone'' ''@Component({selector: 1})...'']"
proof -
  have "list_all (\<lambda>i.
          (case first_match component_rx
                  (drop i ''@Component({standalone: true}) class A {} '' @
                   (''@Component({'' @ ''selector: 1'' @ ''})'') @ '' class B {}'') of
             None \<Rightarrow> True
           | Some (g, r) \<Rightarrow>
               length ((''@Component({'' @ ''selector: 1'' @ ''})'') @ '' class B {}'') \<le> length r))
        [0..<length ''@Component({standalone: true}) class A {} '']"
    by code_simp
  then have h: "\<forall>i<length ''@Component({standalone: true}) class A {} ''.
          (case first_match component_rx
                  (drop i ''@Component({standalone: true}) class A {} '' @
                   (''@Component({'' @ ''selector: 1'' @ ''})'') @ '' class B {}'') of
             None \<Rightarrow> True
           | Some (g, r) \<Rightarrow>
               length ((''@Component({'' @ ''selector: 1'' @ ''})'') @ '' class B {}'') \<le> length r)"
    by (rule list_all_upt_less)
  have b1: "''selector: 1'' \<noteq> []" by simp
  have b2: "CHR ''}'' \<notin> set ''selector: 1''" by simp
  have p: "filter is_Component (extract_code_patterns ''@Component({standalone: true}) class A {} '') = []"
    by code_simp
  have q: "filter is_Component (extract_code_patterns '' class B {}'') = []"
    by code_simp
  have c: "\<not> contains ''standalone: true'' (''@Component({'' @ ''selector: 1'' @ ''})'')"
    by code_simp
  have t: "take 50 (''@Component({'' @ ''selector: 1'' @ ''})'') @ ''...'' = ''@Component({selector: 1})...''"
    by simp
  show ?thesis
    using component_records [OF b1 b2 h, THEN conjunct1] p q c t
    by (simp only: if_False append_Nil append_Nil2)
qed

text \<open>
  Without the condition the claim fails. In the content below, a comment holds an
  unfinished decorator: the component scan matches from there to the end of the block on
  the next line, the match contains \<^verbatim>\<open>standalone: true\<close>, and the block, which lacks it,
  gets no record.
\<close>

theorem component_block_swallowed_counterexample:
  "contains ''@Component({selector: 1})''
     (''// @Component({ standalone: true'' @ [newline] @ ''@Component({selector: 1})'') \<and>
   \<not> contains ''standalone: true'' ''@Component({selector: 1})'' \<and>
   extract_code_patterns
     (''// @Component({ standalone: true'' @ [newline] @ ''@Component({selector: 1})'') = []"
  by code_simp

subsection \<open>The extractor is a function of the content\<close>

text \<open>
  Claim C9. \<^verbatim>\<open>extract_code_patterns\<close> is a function of the content alone: its result is
  the records of the three scans of the content, one after the other, so equal contents
  give equal results, and nothing but the content is read or changed. When none of the
  three scans matches, the result is the empty list.
\<close>

theorem extract_code_patterns_pure:
  "extract_code_patterns content =
     map (\<lambda>(svc, m). ServiceMethod svc m (''this.'' @ svc @ ''.'' @ m @ ''()''))
       (findall service_rx content) @
     map (\<lambda>(imported, pth). Import (map strip (split_on CHR '','' imported)) pth)
       (findall import_rx content) @
     map (\<lambda>comp. Component ''missing_standalone'' (take 50 comp @ ''...''))
       (filter (\<lambda>comp. \<not> contains ''standalone: true'' comp) (findall component_rx content)) \<and>
   (content' = content \<longrightarrow> extract_code_patterns content' = extract_code_patterns content) \<and>
   (findall service_rx content = [] \<and> findall import_rx content = [] \<and>
    findall component_rx content = [] \<longrightarrow> extract_code_patterns content = [])"
  using extract_code_patterns_eq [of content] by simp

theorem extract_code_patterns_pure_witness:
  "extract_code_patterns ''const x = 1;'' = []"
proof -
  have a: "findall service_rx ''const x = 1;'' = []" by code_simp
  have b: "findall import_rx ''const x = 1;'' = []" by code_simp
  have c: "findall component_rx ''const x = 1;'' = []" by code_simp
  show ?thesis
    using extract_code_patterns_pure [where content = "''const x = 1;''", THEN conjunct2, THEN conjunct2] a b c
    by blast
qed

subsection \<open>Imports\<close>

lemma import_rx_suffix:
  assumes "x \<in> set (import_rx t)"
  shows "\<exists>m. t = m @ snd x"
proof -
  obtain g r where x: "x = (g, r)" by (cases x)
  from assms x have "(g, r) \<in> set (import_rx t)" by simp
  then obtain sp1 imported sp2 sp3 q1 pth q2 where
    "t = ''import'' @ sp1 @ ''{'' @ imported @ ''}'' @ sp2 @ ''from'' @ sp3 @ q1 # pth @ q2 # r"
    unfolding import_rx_def
    by (auto simp: bex_lit bex_many1 bex_many0 bex_one_of image_iff)
  then have "t = (''import'' @ sp1 @ ''{'' @ imported @ ''}'' @ sp2 @ ''from'' @ sp3 @ q1 # pth @ [q2]) @ r"
    by simp
  then show ?thesis using x by (metis snd_conv)
qed

lemma import_first_match_suffix:
  assumes "first_match import_rx t = Some (g, r)"
  shows "\<exists>m. t = m @ r"
  using import_rx_suffix [OF first_match_mem [OF assms]] by simp

lemma import_first_line:
  "first_match import_rx (sample_import_line @ post) = Some (('' A, B '', ''x/y''), post)"
  by (simp add: sample_import_line_def first_match_def import_rx_def lit_def startswith_def
      many0_def one_of_def space_char_def not_rbrace_def not_quote_def quote_char_def
      squote_def dquote_def)

lemma findall_hd:
  assumes "first_match rx s = Some (g, r)"
  shows "g \<in> set (findall rx s)"
  using assms by (subst findall.simps) (simp split: list.splits)

lemma findall_reaches_aux:
  assumes sfx: "\<And>t g r. first_match rx t = Some (g, r) \<Longrightarrow> \<exists>m. t = m @ r"
      and here: "first_match rx s = Some (g0, r0)"
      and clear: "\<And>u t g r. pre = u @ t \<Longrightarrow> t \<noteq> [] \<Longrightarrow> first_match rx (t @ s) = Some (g, r) \<Longrightarrow>
                    length s \<le> length r"
  shows "\<exists>u. pre = u @ t \<Longrightarrow> g0 \<in> set (findall rx (t @ s))"
proof (induction t rule: length_induct)
  case (1 t)
  have ih: "g0 \<in> set (findall rx (ys @ s))" if "length ys < length t" "\<exists>u. pre = u @ ys" for ys
    using "1.IH" that by blast
  show ?case
  proof (cases t)
    case Nil
    then show ?thesis using findall_hd [OF here] by simp
  next
    case (Cons c t0)
    from "1.prems" obtain u where u: "pre = u @ t" by blast
    have ne: "t \<noteq> []" using Cons by simp
    have "pre = (u @ [c]) @ t0" using u Cons by simp
    then have u0: "\<exists>u. pre = u @ t0" by blast
    have ih0: "g0 \<in> set (findall rx (t0 @ s))" using ih [of t0] u0 Cons by simp
    show ?thesis
    proof (cases "first_match rx (t @ s)")
      case None
      then have "findall rx (t @ s) = findall rx (t0 @ s)"
        using Cons findall_None [of rx c "t0 @ s"] by simp
      then show ?thesis using ih0 by simp
    next
      case (Some x)
      obtain g r where x: "x = (g, r)" by (cases x)
      have fm: "first_match rx (t @ s) = Some (g, r)" using Some x by simp
      have len: "length s \<le> length r" using clear [OF u ne fm] .
      from sfx [OF fm] obtain m where m: "t @ s = m @ r" by blast
      have "\<exists>r'. t = m @ r' \<and> r = r' @ s"
      proof -
        from m consider us where "t = m @ us" "us @ s = r" | us where "t @ us = m" "s = us @ r"
          by (auto simp: append_eq_append_conv2)
        then show ?thesis
        proof cases
          case 1
          then show ?thesis by blast
        next
          case 2
          then have "us = []" using len by simp
          then have "t = m @ [] \<and> r = [] @ s" using 2 by simp
          then show ?thesis by blast
        qed
      qed
      then obtain r' where r': "t = m @ r'" "r = r' @ s" by blast
      show ?thesis
      proof (cases "length r < length (t @ s)")
        case True
        then have lt: "length r' < length t" using r'(2) by simp
        have "pre = (u @ m) @ r'" using u r'(1) by simp
        then have "\<exists>u. pre = u @ r'" by blast
        then have "g0 \<in> set (findall rx (r' @ s))" using ih [of r'] lt by simp
        moreover have "findall rx (t @ s) = g # findall rx r" using fm True by (rule findall_Some)
        ultimately show ?thesis using r'(2) by simp
      next
        case False
        then have "findall rx (t @ s) = g # findall rx (t0 @ s)"
          using fm Cons findall_Some_stuck [of rx c "t0 @ s" g r] by simp
        then show ?thesis using ih0 by simp
      qed
    qed
  qed
qed

lemma findall_reaches:
  assumes "\<And>t g r. first_match rx t = Some (g, r) \<Longrightarrow> \<exists>m. t = m @ r"
      and "first_match rx s = Some (g0, r0)"
      and "\<And>u t g r. pre = u @ t \<Longrightarrow> t \<noteq> [] \<Longrightarrow> first_match rx (t @ s) = Some (g, r) \<Longrightarrow>
                    length s \<le> length r"
  shows "g0 \<in> set (findall rx (pre @ s))"
proof (rule findall_reaches_aux [where rx = rx and s = s and pre = pre and t = pre and ?g0.0 = g0 and ?r0.0 = r0])
  show "\<And>t g r. first_match rx t = Some (g, r) \<Longrightarrow> \<exists>m. t = m @ r" by (rule assms(1))
  show "first_match rx s = Some (g0, r0)" by (rule assms(2))
  show "\<And>u t g r. pre = u @ t \<Longrightarrow> t \<noteq> [] \<Longrightarrow> first_match rx (t @ s) = Some (g, r) \<Longrightarrow>
                    length s \<le> length r" by (rule assms(3))
  have "pre = [] @ pre" by simp
  then show "\<exists>u. pre = u @ pre" by blast
qed

lemma items_sample: "map strip (split_on CHR '','' '' A, B '') = [''A'', ''B'']"
  by code_simp

text \<open>
  Claim C8, as the code has it. Let the content contain the import line
  \<^verbatim>\<open>import { A, B } from 'x/y'\<close>, with the text \<open>pre\<close> before it and \<open>post\<close> after it. When
  no import match that starts in \<open>pre\<close> reaches into the line (every match found at a
  position of \<open>pre\<close> leaves at least the line and \<open>post\<close> unread), the extractor yields
  an import record with the items \<^verbatim>\<open>A\<close>, \<^verbatim>\<open>B\<close> and the path \<^verbatim>\<open>x/y\<close>. The import records of any
  content are, in order, those of the matches of the import scan: the matched list split
  at the commas, each item stripped, nothing dropped.
\<close>

theorem import_records:
  assumes "\<forall>i<length pre.
             (case first_match import_rx (drop i pre @ sample_import_line @ post) of
                None \<Rightarrow> True
              | Some (g, r) \<Rightarrow> length (sample_import_line @ post) \<le> length r)"
  shows "Import [''A'', ''B''] ''x/y'' \<in> set (extract_code_patterns (pre @ sample_import_line @ post)) \<and>
         filter is_Import (extract_code_patterns content) =
           map (\<lambda>(imported, pth). Import (map strip (split_on CHR '','' imported)) pth)
             (findall import_rx content)"
proof -
  have "('' A, B '', ''x/y'') \<in> set (findall import_rx (pre @ sample_import_line @ post))"
  proof (rule findall_reaches [where rx = import_rx and s = "sample_import_line @ post"
        and pre = pre and ?g0.0 = "('' A, B '', ''x/y'')" and ?r0.0 = post])
    show "\<And>t g r. first_match import_rx t = Some (g, r) \<Longrightarrow> \<exists>m. t = m @ r"
      by (rule import_first_match_suffix)
    show "first_match import_rx (sample_import_line @ post) = Some (('' A, B '', ''x/y''), post)"
      by (rule import_first_line)
    fix u t g r
    assume pre: "pre = u @ t" and ne: "t \<noteq> []"
      and fm: "first_match import_rx (t @ sample_import_line @ post) = Some (g, r)"
    have i: "length u < length pre" using pre ne by simp
    have d: "drop (length u) pre = t" using pre by simp
    from assms [rule_format, OF i] show "length (sample_import_line @ post) \<le> length r"
      unfolding d using fm by simp
  qed
  then have "(\<lambda>(imported, pth). Import (map strip (split_on CHR '','' imported)) pth) ('' A, B '', ''x/y'')
      \<in> set (filter is_Import (extract_code_patterns (pre @ sample_import_line @ post)))"
    unfolding filter_import_extract set_map by (rule imageI)
  then have "Import [''A'', ''B''] ''x/y'' \<in> set (extract_code_patterns (pre @ sample_import_line @ post))"
    using items_sample by simp
  then show ?thesis using filter_import_extract [of content] by simp
qed

theorem import_records_witness:
  "Import [''A'', ''B''] ''x/y'' \<in> set (extract_code_patterns
     ((''import {C} from '' @ [squote] @ ''z'' @ [squote] @ '';'' @ [newline]) @
      sample_import_line @ [newline]))"
proof -
  have "list_all (\<lambda>i.
          (case first_match import_rx
                  (drop i (''import {C} from '' @ [squote] @ ''z'' @ [squote] @ '';'' @ [newline]) @
                   sample_import_line @ [newline]) of
             None \<Rightarrow> True
           | Some (g, r) \<Rightarrow> length (sample_import_line @ [newline]) \<le> length r))
        [0..<length (''import {C} from '' @ [squote] @ ''z'' @ [squote] @ '';'' @ [newline])]"
    by code_simp
  then have h: "\<forall>i<length (''import {C} from '' @ [squote] @ ''z'' @ [squote] @ '';'' @ [newline]).
          (case first_match import_rx
                  (drop i (''import {C} from '' @ [squote] @ ''z'' @ [squote] @ '';'' @ [newline]) @
                   sample_import_line @ [newline]) of
             None \<Rightarrow> True
           | Some (g, r) \<Rightarrow> length (sample_import_line @ [newline]) \<le> length r)"
    by (rule list_all_upt_less)
  show ?thesis
    using import_records [OF h, THEN conjunct1] .
qed

text \<open>
  Without the condition the claim fails. In the content below the import line follows a
  statement whose string literal holds an unfinished import: the import scan matches from
  that literal up to the quote that opens \<^verbatim>\<open>'x/y'\<close>, and the import line gives no record of
  its own.
\<close>

theorem import_line_swallowed_counterexample:
  "contains sample_import_line
     (''const s = '' @ [dquote] @ ''import {X} from '' @ [dquote] @ '';'' @ [newline] @
      sample_import_line) \<and>
   extract_code_patterns
     (''const s = '' @ [dquote] @ ''import {X} from '' @ [dquote] @ '';'' @ [newline] @
      sample_import_line) =
     [Import [''X''] ('';'' @ [newline] @ ''import { A, B } from '')] \<and>
   Import [''A'', ''B''] ''x/y'' \<notin> set (extract_code_patterns
     (''const s = '' @ [dquote] @ ''import {X} from '' @ [dquote] @ '';'' @ [newline] @
      sample_import_line))"
  by code_simp

end
